theory Spec2Isabelle
  imports Main "HOL-Library.Sublist" "HOL-Library.Multiset"
begin

section \<open>The syntax tree handed to the security rules\<close>

text \<open>
  The rules of \<^verbatim>\<open>pyward/rules/security_rules.py\<close> take a Python \<^verbatim>\<open>ast.AST\<close>. The tree is
  modelled along Python's abstract grammar: an expression never holds a statement, a
  \<^verbatim>\<open>Call\<close> holds \<^verbatim>\<open>keyword\<close> nodes, an import holds \<^verbatim>\<open>alias\<close> nodes. The node kinds that a rule
  inspects have a constructor of their own; every other kind is \<open>OtherExpr\<close> (inside an
  expression) or \<open>Node\<close> (anywhere else), holding its child nodes in field order.

  \<^item> The attribute \<^verbatim>\<open>lineno\<close> is an \<open>int option\<close>: a tree built by hand (not by the parser)
    may lack it, and reading it then raises \<^verbatim>\<open>AttributeError\<close>.
  \<^item> The \<^verbatim>\<open>ctx\<close> and operator children (\<^verbatim>\<open>Load\<close>, \<^verbatim>\<open>Store\<close>, \<^verbatim>\<open>Add\<close>, ...) are left out: they have
    no fields and no rule looks at them.
  \<^item> \<open>Expr e\<close> is the expression node \<open>e\<close> itself, standing where any node may stand; it
    is not a node of its own.
\<close>

datatype pyconst = CNone | CBool bool | CInt int | CStr string | CBytes string | COther

datatype expr =
    Call "int option" expr "expr list" "keyword list"
  | Name "int option" string
  | Attribute "int option" expr string
  | Constant "int option" pyconst
  | OtherExpr "expr list"
and keyword = Keyword "string option" expr

datatype py_alias = Alias string "string option"

datatype ast =
    Import "int option" "py_alias list"
  | ImportFrom "int option" "string option" "py_alias list"
  | Assign "int option" "expr list" expr
  | Expr expr
  | Node "ast list"

datatype error = AttributeError

section \<open>Strings\<close>

text \<open>\<^verbatim>\<open>str(n)\<close> of an integer, as an f-string renders \<^verbatim>\<open>{node.lineno}\<close>.\<close>

fun str_nat :: "nat \<Rightarrow> string" where
  "str_nat n =
     (if n < 10 then [''0123456789'' ! n]
      else str_nat (n div 10) @ [''0123456789'' ! (n mod 10)])"

declare str_nat.simps [simp del]

definition str_int :: "int \<Rightarrow> string" where
  "str_int i = (if i < 0 then CHR ''-'' # str_nat (nat (- i)) else str_nat (nat i))"

text \<open>
  \<^verbatim>\<open>str.lower\<close> and \<^verbatim>\<open>str.upper\<close> on the ASCII letters; other characters are kept. The
  secrets rule only asks whether the lowered name contains an ASCII word, and lowering a
  character of this model that is not an ASCII letter never yields one; the hashing rule
  only uppers \<^verbatim>\<open>md5\<close> and \<^verbatim>\<open>sha1\<close>.
\<close>

definition lower_char :: "char \<Rightarrow> char" where
  "lower_char c =
     (let n = of_char c :: nat in if 65 \<le> n \<and> n \<le> 90 then char_of (n + 32) else c)"

definition upper_char :: "char \<Rightarrow> char" where
  "upper_char c =
     (let n = of_char c :: nat in if 97 \<le> n \<and> n \<le> 122 then char_of (n - 32) else c)"

definition lower :: "string \<Rightarrow> string" where
  "lower s = map lower_char s"

definition upper :: "string \<Rightarrow> string" where
  "upper s = map upper_char s"

section \<open>ast.NodeVisitor and ast.walk\<close>

text \<open>
  \<^verbatim>\<open>NodeVisitor.visit\<close> calls the method \<^verbatim>\<open>visit_<Kind>\<close> when the visitor has one and
  \<^verbatim>\<open>generic_visit\<close> otherwise; \<^verbatim>\<open>generic_visit\<close> visits the child nodes in field order. The
  visitors of the expression rules define one method, which appends to \<^verbatim>\<open>issues\<close> and then
  calls \<^verbatim>\<open>generic_visit\<close>. The method is the parameter \<open>h\<close>: the strings it appends at a
  node (none at a node of another kind), or the exception it raises. The list \<^verbatim>\<open>issues\<close> is
  passed along; an exception ends the traversal.
\<close>

fun visit_expr :: "(expr \<Rightarrow> error + string list) \<Rightarrow> expr \<Rightarrow> string list \<Rightarrow> error + string list"
and generic_visit_expr :: "(expr \<Rightarrow> error + string list) \<Rightarrow> expr \<Rightarrow> string list \<Rightarrow> error + string list"
and visit_exprs :: "(expr \<Rightarrow> error + string list) \<Rightarrow> expr list \<Rightarrow> string list \<Rightarrow> error + string list"
and visit_keywords :: "(expr \<Rightarrow> error + string list) \<Rightarrow> keyword list \<Rightarrow> string list \<Rightarrow> error + string list"
where
  "visit_expr h node issues =
     (case h node of Inl x \<Rightarrow> Inl x | Inr new \<Rightarrow> generic_visit_expr h node (issues @ new))"
| "generic_visit_expr h (Call l f as ks) issues =
     (case visit_expr h f issues of Inl x \<Rightarrow> Inl x
      | Inr i1 \<Rightarrow> (case visit_exprs h as i1 of Inl x \<Rightarrow> Inl x | Inr i2 \<Rightarrow> visit_keywords h ks i2))"
| "generic_visit_expr h (Name l i) issues = Inr issues"
| "generic_visit_expr h (Attribute l v a) issues = visit_expr h v issues"
| "generic_visit_expr h (Constant l c) issues = Inr issues"
| "generic_visit_expr h (OtherExpr es) issues = visit_exprs h es issues"
| "visit_exprs h [] issues = Inr issues"
| "visit_exprs h (e # es) issues =
     (case visit_expr h e issues of Inl x \<Rightarrow> Inl x | Inr i1 \<Rightarrow> visit_exprs h es i1)"
| "visit_keywords h [] issues = Inr issues"
| "visit_keywords h (Keyword a v # ks) issues =
     (case visit_expr h v issues of Inl x \<Rightarrow> Inl x | Inr i1 \<Rightarrow> visit_keywords h ks i1)"

text \<open>
  The same visitor started at any node of the tree. No expression rule has a method for
  a statement, so every such node is passed by \<^verbatim>\<open>generic_visit\<close>; an \<^verbatim>\<open>alias\<close> has no child
  node.
\<close>

fun visit :: "(expr \<Rightarrow> error + string list) \<Rightarrow> ast \<Rightarrow> string list \<Rightarrow> error + string list"
and visit_nodes :: "(expr \<Rightarrow> error + string list) \<Rightarrow> ast list \<Rightarrow> string list \<Rightarrow> error + string list"
where
  "visit h (Import l names) issues = Inr issues"
| "visit h (ImportFrom l m names) issues = Inr issues"
| "visit h (Assign l targets v) issues =
     (case visit_exprs h targets issues of Inl x \<Rightarrow> Inl x | Inr i1 \<Rightarrow> visit_expr h v i1)"
| "visit h (Expr e) issues = visit_expr h e issues"
| "visit h (Node cs) issues = visit_nodes h cs issues"
| "visit_nodes h [] issues = Inr issues"
| "visit_nodes h (c # cs) issues =
     (case visit h c issues of Inl x \<Rightarrow> Inl x | Inr i1 \<Rightarrow> visit_nodes h cs i1)"

text \<open>
  \<^verbatim>\<open>ast.walk\<close> yields the nodes breadth first: it pops the first node of a queue, appends
  the node's children (\<^verbatim>\<open>ast.iter_child_nodes\<close>) to the queue and yields the node. The
  queue holds nodes of every kind.
\<close>

datatype anynode = AST ast | KW keyword | AL py_alias

fun iter_child_nodes :: "anynode \<Rightarrow> anynode list" where
  "iter_child_nodes (AST (Import l names)) = map AL names"
| "iter_child_nodes (AST (ImportFrom l m names)) = map AL names"
| "iter_child_nodes (AST (Assign l targets v)) = map (\<lambda>e. AST (Expr e)) targets @ [AST (Expr v)]"
| "iter_child_nodes (AST (Expr (Call l f as ks))) =
     AST (Expr f) # map (\<lambda>e. AST (Expr e)) as @ map KW ks"
| "iter_child_nodes (AST (Expr (Name l i))) = []"
| "iter_child_nodes (AST (Expr (Attribute l v a))) = [AST (Expr v)]"
| "iter_child_nodes (AST (Expr (Constant l c))) = []"
| "iter_child_nodes (AST (Expr (OtherExpr es))) = map (\<lambda>e. AST (Expr e)) es"
| "iter_child_nodes (AST (Node cs)) = map AST cs"
| "iter_child_nodes (KW (Keyword a v)) = [AST (Expr v)]"
| "iter_child_nodes (AL a) = []"

text \<open>The number of nodes below and including a node: what the queue of \<open>walk\<close> still holds.\<close>

fun count_expr :: "expr \<Rightarrow> nat"
and count_exprs :: "expr list \<Rightarrow> nat"
and count_keywords :: "keyword list \<Rightarrow> nat"
where
  "count_expr (Call l f as ks) = Suc (count_expr f + count_exprs as + count_keywords ks)"
| "count_expr (Name l i) = 1"
| "count_expr (Attribute l v a) = Suc (count_expr v)"
| "count_expr (Constant l c) = 1"
| "count_expr (OtherExpr es) = Suc (count_exprs es)"
| "count_exprs [] = 0"
| "count_exprs (e # es) = count_expr e + count_exprs es"
| "count_keywords [] = 0"
| "count_keywords (Keyword a v # ks) = Suc (count_expr v) + count_keywords ks"

fun count_ast :: "ast \<Rightarrow> nat"
and count_asts :: "ast list \<Rightarrow> nat"
where
  "count_ast (Import l names) = Suc (length names)"
| "count_ast (ImportFrom l m names) = Suc (length names)"
| "count_ast (Assign l targets v) = Suc (count_exprs targets + count_expr v)"
| "count_ast (Expr e) = count_expr e"
| "count_ast (Node cs) = Suc (count_asts cs)"
| "count_asts [] = 0"
| "count_asts (c # cs) = count_ast c + count_asts cs"

fun count_node :: "anynode \<Rightarrow> nat" where
  "count_node (AST t) = count_ast t"
| "count_node (KW (Keyword a v)) = Suc (count_expr v)"
| "count_node (AL a) = 1"

lemma sum_count_exprs: "sum_list (map count_expr es) = count_exprs es"
  by (induction es) simp_all

lemma sum_count_keywords: "sum_list (map (\<lambda>k. count_node (KW k)) ks) = count_keywords ks"
proof (induction ks)
  case Nil
  show ?case by simp
next
  case (Cons k ks)
  then show ?case by (cases k) simp
qed

lemma sum_count_asts: "sum_list (map count_ast cs) = count_asts cs"
  by (induction cs) simp_all

lemma sum_count_aliases: "sum_list (map (\<lambda>a. Suc 0) names) = length names"
  by (induction names) simp_all

lemma count_children: "Suc (sum_list (map count_node (iter_child_nodes n))) = count_node n"
  by (induction n rule: iter_child_nodes.induct)
     (simp_all add: comp_def sum_count_exprs sum_count_keywords sum_count_asts sum_count_aliases)

function walk :: "anynode list \<Rightarrow> anynode list" where
  "walk [] = []"
| "walk (node # todo) = node # walk (todo @ iter_child_nodes node)"
  by pat_completeness auto

termination
proof (relation "measure (\<lambda>todo. sum_list (map count_node todo))")
  show "wf (measure (\<lambda>todo. sum_list (map count_node todo)))"
    by simp
next
  fix node :: anynode and todo :: "anynode list"
  have "sum_list (map count_node (iter_child_nodes node)) < count_node node"
    using count_children [of node] by simp
  then show "(todo @ iter_child_nodes node, node # todo) \<in> measure (\<lambda>todo. sum_list (map count_node todo))"
    by simp
qed

section \<open>The rules\<close>

subsection \<open>check_exec_eval_usage\<close>

definition exec_eval_message :: "int \<Rightarrow> string \<Rightarrow> string" where
  "exec_eval_message lineno func_id =
     ''[Security][CVE-2025-3248] Line '' @ str_int lineno @ '': '' @
     ''Use of '' @ CHR 0x27 # func_id @ ''()' detected. '' @
     ''This can lead to code injection (e.g. CVE-2025-3248 in Langflow). '' @
     ''Consider safer alternatives (e.g., ast.literal_eval) or explicit parsing.''"

text \<open>\<^verbatim>\<open>ExecEvalVisitor.visit_Call\<close>, up to its call of \<^verbatim>\<open>generic_visit\<close>.\<close>

fun ExecEvalVisitor_visit_Call :: "expr \<Rightarrow> error + string list" where
  "ExecEvalVisitor_visit_Call (Call lineno (Name l func_id) as ks) =
     (if func_id \<in> set [''exec'', ''eval'']
      then (case lineno of None \<Rightarrow> Inl AttributeError
            | Some n \<Rightarrow> Inr [exec_eval_message n func_id])
      else Inr [])"
| "ExecEvalVisitor_visit_Call node = Inr []"

definition check_exec_eval_usage :: "ast \<Rightarrow> error + string list" where
  "check_exec_eval_usage tree = visit ExecEvalVisitor_visit_Call tree []"

subsection \<open>check_python_json_logger_import\<close>

definition import_message :: "int \<Rightarrow> string" where
  "import_message lineno =
     ''[Security][CVE-2025-27607] Line '' @ str_int lineno @ '': '' @
     CHR 0x27 # ''python_json_logger' import detected. This package was vulnerable to RCE '' @
     ''between Dec 30, 2024 and Mar 4, 2025 (CVE-2025-27607). '' @
     ''Update to a patched version or remove this dependency.''"

definition import_from_message :: "int \<Rightarrow> string" where
  "import_from_message lineno =
     ''[Security][CVE-2025-27607] Line '' @ str_int lineno @ '': '' @
     CHR 0x27 # ''from python_json_logger import ...' detected. This package was vulnerable to RCE '' @
     ''between Dec 30, 2024 and Mar 4, 2025 (CVE-2025-27607). '' @
     ''Update to a patched version or remove this dependency.''"

text \<open>The loop over \<^verbatim>\<open>node.names\<close> of an \<^verbatim>\<open>Import\<close>.\<close>

fun import_names_loop :: "int option \<Rightarrow> py_alias list \<Rightarrow> string list \<Rightarrow> error + string list" where
  "import_names_loop lineno [] issues = Inr issues"
| "import_names_loop lineno (Alias name asname # names) issues =
     (if name = ''python_json_logger'' \<or> prefix ''python_json_logger.'' name
      then (case lineno of None \<Rightarrow> Inl AttributeError
            | Some n \<Rightarrow> import_names_loop lineno names (issues @ [import_message n]))
      else import_names_loop lineno names issues)"

text \<open>The loop over \<^verbatim>\<open>ast.walk(tree)\<close>.\<close>

fun import_walk_loop :: "anynode list \<Rightarrow> string list \<Rightarrow> error + string list" where
  "import_walk_loop [] issues = Inr issues"
| "import_walk_loop (AST (Import lineno names) # nodes) issues =
     (case import_names_loop lineno names issues of Inl x \<Rightarrow> Inl x
      | Inr i1 \<Rightarrow> import_walk_loop nodes i1)"
| "import_walk_loop (AST (ImportFrom lineno module names) # nodes) issues =
     (let mod_name = (case module of None \<Rightarrow> [] | Some m \<Rightarrow> m) in
      if mod_name = ''python_json_logger'' \<or> prefix ''python_json_logger.'' mod_name
      then (case lineno of None \<Rightarrow> Inl AttributeError
            | Some n \<Rightarrow> import_walk_loop nodes (issues @ [import_from_message n]))
      else import_walk_loop nodes issues)"
| "import_walk_loop (node # nodes) issues = import_walk_loop nodes issues"

definition check_python_json_logger_import :: "ast \<Rightarrow> error + string list" where
  "check_python_json_logger_import tree = import_walk_loop (walk [AST tree]) []"

subsection \<open>check_subprocess_usage\<close>

definition subprocess_message :: "int \<Rightarrow> string \<Rightarrow> string" where
  "subprocess_message lineno attr =
     ''[Security] Line '' @ str_int lineno @ '': Use of subprocess.'' @ attr @ ''() with shell=True. '' @
     ''Risk of shell injection. '' @
     ''Recommendation: Use a list of arguments and shell=False.''"

text \<open>The loop over \<^verbatim>\<open>node.keywords\<close>; \<open>new\<close> holds what it has appended so far.\<close>

fun subprocess_keywords_loop :: "int option \<Rightarrow> string \<Rightarrow> keyword list \<Rightarrow> string list \<Rightarrow> error + string list" where
  "subprocess_keywords_loop lineno attr [] new = Inr new"
| "subprocess_keywords_loop lineno attr (Keyword arg v # kws) new =
     (if arg = Some ''shell''
      then (case v of
              Constant l (CBool True) \<Rightarrow>
                (case lineno of None \<Rightarrow> Inl AttributeError
                 | Some n \<Rightarrow> subprocess_keywords_loop lineno attr kws (new @ [subprocess_message n attr]))
            | _ \<Rightarrow> subprocess_keywords_loop lineno attr kws new)
      else subprocess_keywords_loop lineno attr kws new)"

fun SubprocessVisitor_visit_Call :: "expr \<Rightarrow> error + string list" where
  "SubprocessVisitor_visit_Call (Call lineno (Attribute l (Name l' value_id) attr) as keywords) =
     (if value_id = ''subprocess'' \<and> attr \<in> set [''run'', ''Popen'', ''call'', ''check_output'']
      then subprocess_keywords_loop lineno attr keywords []
      else Inr [])"
| "SubprocessVisitor_visit_Call node = Inr []"

definition check_subprocess_usage :: "ast \<Rightarrow> error + string list" where
  "check_subprocess_usage tree = visit SubprocessVisitor_visit_Call tree []"

subsection \<open>check_pickle_usage\<close>

definition pickle_message :: "int \<Rightarrow> string \<Rightarrow> string" where
  "pickle_message lineno attr =
     ''[Security] Line '' @ str_int lineno @ '': Use of pickle.'' @ attr @ ''(). '' @
     ''Untrusted pickle data can lead to RCE. '' @
     ''Recommendation: Use json or verify signature before unpickling.''"

fun PickleVisitor_visit_Call :: "expr \<Rightarrow> error + string list" where
  "PickleVisitor_visit_Call (Call lineno (Attribute l (Name l' value_id) attr) as keywords) =
     (if value_id = ''pickle'' \<and> attr \<in> set [''load'', ''loads'']
      then (case lineno of None \<Rightarrow> Inl AttributeError
            | Some n \<Rightarrow> Inr [pickle_message n attr])
      else Inr [])"
| "PickleVisitor_visit_Call node = Inr []"

definition check_pickle_usage :: "ast \<Rightarrow> error + string list" where
  "check_pickle_usage tree = visit PickleVisitor_visit_Call tree []"

subsection \<open>check_yaml_load_usage\<close>

definition yaml_message :: "int \<Rightarrow> string" where
  "yaml_message lineno =
     ''[Security] Line '' @ str_int lineno @ '': Use of yaml.load() without SafeLoader. '' @
     ''Unsafe YAML loading can lead to code execution. '' @
     ''Recommendation: Use yaml.safe_load() or specify Loader=yaml.SafeLoader.''"

text \<open>The loop over \<^verbatim>\<open>node.keywords\<close> that sets \<^verbatim>\<open>has_safe\<close>.\<close>

fun yaml_keywords_loop :: "keyword list \<Rightarrow> bool \<Rightarrow> bool" where
  "yaml_keywords_loop [] has_safe = has_safe"
| "yaml_keywords_loop (Keyword arg v # kws) has_safe =
     (if arg \<in> set [Some ''Loader'']
      then (case v of
              Attribute l obj attr \<Rightarrow>
                if attr = ''SafeLoader'' then yaml_keywords_loop kws True
                else yaml_keywords_loop kws has_safe
            | _ \<Rightarrow> yaml_keywords_loop kws has_safe)
      else yaml_keywords_loop kws has_safe)"

fun YAMLVisitor_visit_Call :: "expr \<Rightarrow> error + string list" where
  "YAMLVisitor_visit_Call (Call lineno (Attribute l (Name l' value_id) attr) as keywords) =
     (if value_id = ''yaml'' \<and> attr = ''load''
      then (if \<not> yaml_keywords_loop keywords False
            then (case lineno of None \<Rightarrow> Inl AttributeError
                  | Some n \<Rightarrow> Inr [yaml_message n])
            else Inr [])
      else Inr [])"
| "YAMLVisitor_visit_Call node = Inr []"

definition check_yaml_load_usage :: "ast \<Rightarrow> error + string list" where
  "check_yaml_load_usage tree = visit YAMLVisitor_visit_Call tree []"

subsection \<open>check_hardcoded_secrets\<close>

definition secrets_message :: "int \<Rightarrow> string \<Rightarrow> string" where
  "secrets_message lineno target_id =
     ''[Security] Line '' @ str_int lineno @ '': Assignment to '' @ CHR 0x27 # target_id @
     CHR 0x27 # '' with a literal string. '' @
     ''Hard-coded secret detected. '' @
     ''Recommendation: Store secrets in environment variables or a secrets manager.''"

text \<open>
  What \<^verbatim>\<open>SecretsVisitor.visit_Assign\<close> appends at an assignment with one target, before it
  calls \<^verbatim>\<open>generic_visit\<close>. Python's \<^verbatim>\<open>keyword in var_name\<close> on strings is \<open>sublist\<close>.
\<close>

fun secrets_one_target :: "int option \<Rightarrow> expr \<Rightarrow> expr \<Rightarrow> error + string list" where
  "secrets_one_target lineno (Name l target_id) (Constant l' (CStr s)) =
     (let var_name = lower target_id in
      if list_ex (\<lambda>keyword. sublist keyword var_name)
           [''key'', ''secret'', ''password'', ''token'', ''passwd'']
      then (case lineno of None \<Rightarrow> Inl AttributeError
            | Some n \<Rightarrow> Inr [secrets_message n target_id])
      else Inr [])"
| "secrets_one_target lineno target v = Inr []"

text \<open>
  \<^verbatim>\<open>SecretsVisitor\<close>: \<^verbatim>\<open>visit_Assign\<close> returns at once, without visiting the children, when
  the assignment has not exactly one target. The visitor has no method for an expression,
  so it passes through every expression without appending.
\<close>

fun SecretsVisitor_visit :: "ast \<Rightarrow> string list \<Rightarrow> error + string list"
and SecretsVisitor_visit_nodes :: "ast list \<Rightarrow> string list \<Rightarrow> error + string list"
where
  "SecretsVisitor_visit (Assign lineno targets v) issues =
     (if length targets \<noteq> 1 then Inr issues
      else (case secrets_one_target lineno (targets ! 0) v of Inl x \<Rightarrow> Inl x
            | Inr new \<Rightarrow>
                (case visit_exprs (\<lambda>e. Inr []) targets (issues @ new) of Inl x \<Rightarrow> Inl x
                 | Inr i1 \<Rightarrow> visit_expr (\<lambda>e. Inr []) v i1)))"
| "SecretsVisitor_visit (Import l names) issues = Inr issues"
| "SecretsVisitor_visit (ImportFrom l m names) issues = Inr issues"
| "SecretsVisitor_visit (Expr e) issues = visit_expr (\<lambda>e. Inr []) e issues"
| "SecretsVisitor_visit (Node cs) issues = SecretsVisitor_visit_nodes cs issues"
| "SecretsVisitor_visit_nodes [] issues = Inr issues"
| "SecretsVisitor_visit_nodes (c # cs) issues =
     (case SecretsVisitor_visit c issues of Inl x \<Rightarrow> Inl x
      | Inr i1 \<Rightarrow> SecretsVisitor_visit_nodes cs i1)"

definition check_hardcoded_secrets :: "ast \<Rightarrow> error + string list" where
  "check_hardcoded_secrets tree = SecretsVisitor_visit tree []"

subsection \<open>check_weak_hashing_usage\<close>

definition hashing_message :: "int \<Rightarrow> string \<Rightarrow> string" where
  "hashing_message lineno attr =
     ''[Security] Line '' @ str_int lineno @ '': Use of hashlib.'' @ attr @ ''(). '' @
     upper attr @ '' is considered weak. '' @
     ''Recommendation: Use hashlib.sha256 or stronger.''"

fun HashVisitor_visit_Attribute :: "expr \<Rightarrow> error + string list" where
  "HashVisitor_visit_Attribute (Attribute lineno (Name l value_id) attr) =
     (if value_id = ''hashlib'' \<and> attr \<in> set [''md5'', ''sha1'']
      then (case lineno of None \<Rightarrow> Inl AttributeError
            | Some n \<Rightarrow> Inr [hashing_message n attr])
      else Inr [])"
| "HashVisitor_visit_Attribute node = Inr []"

definition check_weak_hashing_usage :: "ast \<Rightarrow> error + string list" where
  "check_weak_hashing_usage tree = visit HashVisitor_visit_Attribute tree []"

subsection \<open>run_all_checks\<close>

text \<open>
  The loop \<^verbatim>\<open>for check in checks: all_issues.extend(check(tree))\<close>. Nothing catches an
  exception of a check: it leaves the loop and \<^verbatim>\<open>run_all_checks\<close>.
\<close>

fun run_checks :: "(ast \<Rightarrow> error + string list) list \<Rightarrow> ast \<Rightarrow> string list \<Rightarrow> error + string list" where
  "run_checks [] tree all_issues = Inr all_issues"
| "run_checks (check # checks) tree all_issues =
     (case check tree of Inl x \<Rightarrow> Inl x
      | Inr issues \<Rightarrow> run_checks checks tree (all_issues @ issues))"

definition checks :: "(ast \<Rightarrow> error + string list) list" where
  "checks =
     [check_exec_eval_usage,
      check_python_json_logger_import,
      check_subprocess_usage,
      check_pickle_usage,
      check_yaml_load_usage,
      check_hardcoded_secrets,
      check_weak_hashing_usage]"

definition run_all_checks :: "ast \<Rightarrow> error + string list" where
  "run_all_checks tree = run_checks checks tree []"

section \<open>The nodes of a tree\<close>

text \<open>
  Every node of the tree, in document order: a node, then the nodes below each of its
  children, in field order. This is the order in which a \<^verbatim>\<open>NodeVisitor\<close> reaches them.
\<close>

lemma count_child_less: "c \<in> set (iter_child_nodes n) \<Longrightarrow> count_node c < count_node n"
proof -
  assume "c \<in> set (iter_child_nodes n)"
  then have "count_node c \<le> sum_list (map count_node (iter_child_nodes n))"
    by (simp add: member_le_sum_list)
  then show ?thesis
    using count_children [of n] by simp
qed

function preorder :: "anynode \<Rightarrow> anynode list" where
  "preorder n = n # concat (map preorder (iter_child_nodes n))"
  by pat_completeness auto

termination
  by (relation "measure count_node") (simp_all add: count_child_less)

declare preorder.simps [simp del]

fun lineno_of :: "anynode \<Rightarrow> int option" where
  "lineno_of (AST (Import l names)) = l"
| "lineno_of (AST (ImportFrom l m names)) = l"
| "lineno_of (AST (Assign l targets v)) = l"
| "lineno_of (AST (Expr (Call l f as ks))) = l"
| "lineno_of (AST (Expr (Name l i))) = l"
| "lineno_of (AST (Expr (Attribute l v a))) = l"
| "lineno_of (AST (Expr (Constant l c))) = l"
| "lineno_of n = None"

subsection \<open>What a rule does at one node\<close>

text \<open>
  \<open>emit issues r\<close> is the list \<^verbatim>\<open>issues\<close> after an action that appends \<open>r\<close> or raises;
  \<open>collect\<close> runs a sequence of such actions, stopping at the first that raises.
\<close>

definition emit :: "string list \<Rightarrow> error + string list \<Rightarrow> error + string list" where
  "emit issues r = (case r of Inl x \<Rightarrow> Inl x | Inr new \<Rightarrow> Inr (issues @ new))"

fun collect :: "(error + string list) list \<Rightarrow> error + string list" where
  "collect [] = Inr []"
| "collect (r # rs) = (case r of Inl x \<Rightarrow> Inl x | Inr new \<Rightarrow> emit new (collect rs))"

fun at_expr :: "(expr \<Rightarrow> error + string list) \<Rightarrow> anynode \<Rightarrow> error + string list" where
  "at_expr h (AST (Expr e)) = h e"
| "at_expr h n = Inr []"

fun secrets_at :: "anynode \<Rightarrow> error + string list" where
  "secrets_at (AST (Assign lineno targets v)) =
     (if length targets \<noteq> 1 then Inr [] else secrets_one_target lineno (targets ! 0) v)"
| "secrets_at n = Inr []"

definition python_json_logger_module :: "string \<Rightarrow> bool" where
  "python_json_logger_module m = (m = ''python_json_logger'' \<or> prefix ''python_json_logger.'' m)"

fun import_at :: "anynode \<Rightarrow> error + string list" where
  "import_at (AST (Import lineno names)) = import_names_loop lineno names []"
| "import_at (AST (ImportFrom lineno module names)) =
     (if python_json_logger_module (case module of None \<Rightarrow> [] | Some m \<Rightarrow> m)
      then (case lineno of None \<Rightarrow> Inl AttributeError | Some n \<Rightarrow> Inr [import_from_message n])
      else Inr [])"
| "import_at n = Inr []"

text \<open>The actions of the seven rules at a node, in registry order.\<close>

definition actions_at :: "anynode \<Rightarrow> (error + string list) list" where
  "actions_at n =
     [at_expr ExecEvalVisitor_visit_Call n,
      import_at n,
      at_expr SubprocessVisitor_visit_Call n,
      at_expr PickleVisitor_visit_Call n,
      at_expr YAMLVisitor_visit_Call n,
      secrets_at n,
      at_expr HashVisitor_visit_Attribute n]"

subsection \<open>The node shapes the specification names\<close>

text \<open>A call of a plain name \<^verbatim>\<open>exec\<close> or \<^verbatim>\<open>eval\<close>, and the name called.\<close>

fun exec_eval_call :: "anynode \<Rightarrow> bool" where
  "exec_eval_call (AST (Expr (Call l (Name l' i) as ks))) = (i = ''exec'' \<or> i = ''eval'')"
| "exec_eval_call n = False"

fun func_id :: "anynode \<Rightarrow> string" where
  "func_id (AST (Expr (Call l (Name l' i) as ks))) = i"
| "func_id n = []"

text \<open>A call \<^verbatim>\<open>name.attr(...)\<close>: the bare name and the attribute; the keywords of a call.\<close>

fun attribute_call :: "anynode \<Rightarrow> (string \<times> string) option" where
  "attribute_call (AST (Expr (Call l (Attribute l1 (Name l2 m) a) as ks))) = Some (m, a)"
| "attribute_call n = None"

fun func_attr :: "anynode \<Rightarrow> string" where
  "func_attr (AST (Expr (Call l (Attribute l1 v a) as ks))) = a"
| "func_attr n = []"

fun call_keywords :: "anynode \<Rightarrow> keyword list" where
  "call_keywords (AST (Expr (Call l f as ks))) = ks"
| "call_keywords n = []"

text \<open>The keyword \<^verbatim>\<open>shell\<close> with the literal \<^verbatim>\<open>True\<close> as its value.\<close>

fun shell_true :: "keyword \<Rightarrow> bool" where
  "shell_true (Keyword (Some k) (Constant l (CBool b))) = (k = ''shell'' \<and> b)"
| "shell_true kw = False"

definition subprocess_call :: "anynode \<Rightarrow> bool" where
  "subprocess_call n =
     (\<exists>a \<in> set [''run'', ''Popen'', ''call'', ''check_output''].
        attribute_call n = Some (''subprocess'', a))"

definition shell_true_call :: "anynode \<Rightarrow> bool" where
  "shell_true_call n = (subprocess_call n \<and> (\<exists>kw \<in> set (call_keywords n). shell_true kw))"

definition pickle_call :: "anynode \<Rightarrow> bool" where
  "pickle_call n = (\<exists>a \<in> set [''load'', ''loads'']. attribute_call n = Some (''pickle'', a))"

text \<open>The keyword \<^verbatim>\<open>Loader\<close> whose value is an attribute access ending in \<^verbatim>\<open>SafeLoader\<close>.\<close>

fun safe_loader_keyword :: "keyword \<Rightarrow> bool" where
  "safe_loader_keyword (Keyword (Some k) (Attribute l obj a)) = (k = ''Loader'' \<and> a = ''SafeLoader'')"
| "safe_loader_keyword kw = False"

definition yaml_load_call :: "anynode \<Rightarrow> bool" where
  "yaml_load_call n = (attribute_call n = Some (''yaml'', ''load''))"

definition unsafe_yaml_load :: "anynode \<Rightarrow> bool" where
  "unsafe_yaml_load n =
     (yaml_load_call n \<and> \<not> (\<exists>kw \<in> set (call_keywords n). safe_loader_keyword kw))"

text \<open>
  An assignment with exactly one target, a plain name, of a string literal, where the
  lowered name contains one of the five words.
\<close>

fun secret_assignment :: "anynode \<Rightarrow> bool" where
  "secret_assignment (AST (Assign l [Name l1 i] (Constant l2 (CStr s)))) =
     (\<exists>w \<in> set [''key'', ''secret'', ''password'', ''token'', ''passwd'']. sublist w (lower i))"
| "secret_assignment n = False"

fun target_id :: "anynode \<Rightarrow> string" where
  "target_id (AST (Assign l [Name l1 i] v)) = i"
| "target_id n = []"

text \<open>The aliases of an \<^verbatim>\<open>Import\<close> that name the package, and an \<^verbatim>\<open>ImportFrom\<close> of it.\<close>

fun alias_name :: "py_alias \<Rightarrow> string" where
  "alias_name (Alias name asname) = name"

fun flagged_aliases :: "anynode \<Rightarrow> py_alias list" where
  "flagged_aliases (AST (Import l names)) =
     filter (\<lambda>a. python_json_logger_module (alias_name a)) names"
| "flagged_aliases n = []"

fun flagged_import_from :: "anynode \<Rightarrow> bool" where
  "flagged_import_from (AST (ImportFrom l module names)) =
     python_json_logger_module (case module of None \<Rightarrow> [] | Some m \<Rightarrow> m)"
| "flagged_import_from n = False"

text \<open>
  An attribute read from a bare name, \<^verbatim>\<open>name.attr\<close>: the name, the bare name on which a call
  \<^verbatim>\<open>name.attr(...)\<close> reads its function, and the attribute.
\<close>

fun receiver :: "anynode \<Rightarrow> string option" where
  "receiver (AST (Expr (Attribute l (Name l' m) a))) = Some m"
| "receiver n = None"

fun called_module :: "anynode \<Rightarrow> string option" where
  "called_module (AST (Expr (Call l (Attribute l1 (Name l2 m) a) as ks))) = Some m"
| "called_module n = None"

fun attr_of :: "anynode \<Rightarrow> string" where
  "attr_of (AST (Expr (Attribute l v a))) = a"
| "attr_of n = []"

definition weak_hash_attribute :: "anynode \<Rightarrow> bool" where
  "weak_hash_attribute n = (receiver n = Some ''hashlib'' \<and> attr_of n \<in> set [''md5'', ''sha1''])"

text \<open>An \<^verbatim>\<open>Import\<close> or \<^verbatim>\<open>ImportFrom\<close> of the package, and what the rule appends at it.\<close>

definition flagged_import :: "anynode \<Rightarrow> bool" where
  "flagged_import n = (flagged_aliases n \<noteq> [] \<or> flagged_import_from n)"

definition import_issues :: "int \<Rightarrow> anynode \<Rightarrow> string list" where
  "import_issues l n =
     replicate (length (flagged_aliases n)) (import_message l) @
     (if flagged_import_from n then [import_from_message l] else [])"

subsection \<open>Example trees\<close>

text \<open>
  The tree of a module with one finding for each rule (\<open>Node\<close> is the module, and the
  expression statement around each call):
  \<^verbatim>\<open>import python_json_logger.jsonlogger, os\<close>,
  \<^verbatim>\<open>from python_json_logger import JsonFormatter\<close>,
  \<^verbatim>\<open>API_KEY = "abc"\<close>,
  \<^verbatim>\<open>eval(x)\<close>,
  \<^verbatim>\<open>subprocess.run(cmd, shell=True)\<close>,
  \<^verbatim>\<open>pickle.loads(data)\<close>,
  \<^verbatim>\<open>yaml.load(data, yaml.SafeLoader)\<close>,
  \<^verbatim>\<open>hashlib.md5(data)\<close>, one statement per line.
\<close>

definition example_tree :: ast where
  "example_tree = Node
     [Import (Some 1) [Alias ''python_json_logger.jsonlogger'' None, Alias ''os'' None],
      ImportFrom (Some 2) (Some ''python_json_logger'') [Alias ''JsonFormatter'' None],
      Assign (Some 3) [Name (Some 3) ''API_KEY''] (Constant (Some 3) (CStr ''abc'')),
      Node [Expr (Call (Some 4) (Name (Some 4) ''eval'') [Name (Some 4) ''x''] [])],
      Node [Expr (Call (Some 5) (Attribute (Some 5) (Name (Some 5) ''subprocess'') ''run'')
              [Name (Some 5) ''cmd''] [Keyword (Some ''shell'') (Constant (Some 5) (CBool True))])],
      Node [Expr (Call (Some 6) (Attribute (Some 6) (Name (Some 6) ''pickle'') ''loads'')
              [Name (Some 6) ''data''] [])],
      Node [Expr (Call (Some 7) (Attribute (Some 7) (Name (Some 7) ''yaml'') ''load'')
              [Name (Some 7) ''data'', Attribute (Some 7) (Name (Some 7) ''yaml'') ''SafeLoader''] [])],
      Node [Expr (Call (Some 8) (Attribute (Some 8) (Name (Some 8) ''hashlib'') ''md5'')
              [Name (Some 8) ''data''] [])]]"

text \<open>
  A tree built by hand: a call \<^verbatim>\<open>exec()\<close> whose nodes were given no \<^verbatim>\<open>lineno\<close>, followed by
  \<^verbatim>\<open>password = "hunter2"\<close> on line 2.
\<close>

definition unlocated_tree :: ast where
  "unlocated_tree = Node
     [Node [Expr (Call None (Name None ''exec'') [] [])],
      Assign (Some 2) [Name (Some 2) ''password''] (Constant (Some 2) (CStr ''hunter2''))]"

text \<open>
  A module of near misses:
  \<^verbatim>\<open>import os, subprocess as sp, python_json_logger_extra\<close>,
  \<^verbatim>\<open>from . import python_json_logger\<close>,
  \<^verbatim>\<open>key1 = key2 = "abc"\<close>,
  \<^verbatim>\<open>token = 5\<close>,
  \<^verbatim>\<open>cfg.password = "abc"\<close>,
  \<^verbatim>\<open>obj.eval(x)\<close>,
  \<^verbatim>\<open>subprocess.run(cmd, shell=False)\<close>,
  \<^verbatim>\<open>subprocess.run(cmd, shell=flag)\<close>,
  \<^verbatim>\<open>subprocess.run(cmd)\<close>,
  \<^verbatim>\<open>yaml.load(d, Loader=anything.SafeLoader)\<close>.
\<close>

definition quiet_tree :: ast where
  "quiet_tree = Node
     [Import (Some 1) [Alias ''os'' None, Alias ''subprocess'' (Some ''sp''),
                       Alias ''python_json_logger_extra'' None],
      ImportFrom (Some 2) None [Alias ''python_json_logger'' None],
      Assign (Some 3) [Name (Some 3) ''key1'', Name (Some 3) ''key2''] (Constant (Some 3) (CStr ''abc'')),
      Assign (Some 4) [Name (Some 4) ''token''] (Constant (Some 4) (CInt 5)),
      Assign (Some 5) [Attribute (Some 5) (Name (Some 5) ''cfg'') ''password''] (Constant (Some 5) (CStr ''abc'')),
      Node [Expr (Call (Some 6) (Attribute (Some 6) (Name (Some 6) ''obj'') ''eval'') [Name (Some 6) ''x''] [])],
      Node [Expr (Call (Some 7) (Attribute (Some 7) (Name (Some 7) ''subprocess'') ''run'')
              [Name (Some 7) ''cmd''] [Keyword (Some ''shell'') (Constant (Some 7) (CBool False))])],
      Node [Expr (Call (Some 8) (Attribute (Some 8) (Name (Some 8) ''subprocess'') ''run'')
              [Name (Some 8) ''cmd''] [Keyword (Some ''shell'') (Name (Some 8) ''flag'')])],
      Node [Expr (Call (Some 9) (Attribute (Some 9) (Name (Some 9) ''subprocess'') ''run'')
              [Name (Some 9) ''cmd''] [])],
      Node [Expr (Call (Some 10) (Attribute (Some 10) (Name (Some 10) ''yaml'') ''load'')
              [Name (Some 10) ''d'']
              [Keyword (Some ''Loader'') (Attribute (Some 10) (Name (Some 10) ''anything'') ''SafeLoader'')])]]"

text \<open>
  A module that binds the four modules to other names and uses them through those:
  \<^verbatim>\<open>import subprocess as sp, pickle as pk, yaml as y, hashlib as h\<close>,
  \<^verbatim>\<open>sp.run(cmd, shell=True)\<close>, \<^verbatim>\<open>pk.loads(data)\<close>, \<^verbatim>\<open>y.load(data)\<close>, \<^verbatim>\<open>h.md5(data)\<close>.
\<close>

definition aliased_tree :: ast where
  "aliased_tree = Node
     [Import (Some 1) [Alias ''subprocess'' (Some ''sp''), Alias ''pickle'' (Some ''pk''),
                       Alias ''yaml'' (Some ''y''), Alias ''hashlib'' (Some ''h'')],
      Node [Expr (Call (Some 2) (Attribute (Some 2) (Name (Some 2) ''sp'') ''run'')
              [Name (Some 2) ''cmd''] [Keyword (Some ''shell'') (Constant (Some 2) (CBool True))])],
      Node [Expr (Call (Some 3) (Attribute (Some 3) (Name (Some 3) ''pk'') ''loads'')
              [Name (Some 3) ''data''] [])],
      Node [Expr (Call (Some 4) (Attribute (Some 4) (Name (Some 4) ''y'') ''load'')
              [Name (Some 4) ''data''] [])],
      Node [Expr (Call (Some 5) (Attribute (Some 5) (Name (Some 5) ''h'') ''md5'')
              [Name (Some 5) ''data''] [])]]"

text \<open>
  A module that uses \<^verbatim>\<open>pickle\<close> under both names:
  \<^verbatim>\<open>import pickle\<close>, \<^verbatim>\<open>import pickle as pk\<close>, \<^verbatim>\<open>pk.loads(a)\<close>, \<^verbatim>\<open>pickle.dumps(b)\<close>.
\<close>

definition rebound_tree :: ast where
  "rebound_tree = Node
     [Import (Some 1) [Alias ''pickle'' None],
      Import (Some 2) [Alias ''pickle'' (Some ''pk'')],
      Node [Expr (Call (Some 3) (Attribute (Some 3) (Name (Some 3) ''pk'') ''loads'')
              [Name (Some 3) ''a''] [])],
      Node [Expr (Call (Some 4) (Attribute (Some 4) (Name (Some 4) ''pickle'') ''dumps'')
              [Name (Some 4) ''b''] [])]]"

section \<open>The traversals visit every node once\<close>

declare visit_expr.simps [simp del]

lemma emit_simps [simp]:
  "emit issues (Inl x) = Inl x"
  "emit issues (Inr new) = Inr (issues @ new)"
  "emit [] r = r"
  "emit a (emit b r) = emit (a @ b) r"
  by (simp_all add: emit_def split: sum.splits)

lemma emit_bind:
  "(case emit issues r of Inl x \<Rightarrow> Inl x | Inr i1 \<Rightarrow> emit i1 s) =
   emit issues (case r of Inl x \<Rightarrow> Inl x | Inr new \<Rightarrow> emit new s)"
  by (cases r) simp_all

lemma collect_append:
  "collect (rs @ ss) = (case collect rs of Inl x \<Rightarrow> Inl x | Inr new \<Rightarrow> emit new (collect ss))"
proof (induction rs)
  case Nil
  show ?case by simp
next
  case (Cons r rs)
  show ?case
  proof (cases r)
    case (Inl x)
    then show ?thesis by simp
  next
    case (Inr new)
    then show ?thesis
      using Cons.IH by (cases "collect rs") simp_all
  qed
qed

lemma preorder_expr_simps:
  "preorder (AST (Expr (Call l f as ks))) =
     AST (Expr (Call l f as ks)) # preorder (AST (Expr f)) @
     concat (map (\<lambda>e. preorder (AST (Expr e))) as) @ concat (map (\<lambda>k. preorder (KW k)) ks)"
  "preorder (AST (Expr (Name l i))) = [AST (Expr (Name l i))]"
  "preorder (AST (Expr (Attribute l v a))) = AST (Expr (Attribute l v a)) # preorder (AST (Expr v))"
  "preorder (AST (Expr (Constant l c))) = [AST (Expr (Constant l c))]"
  "preorder (AST (Expr (OtherExpr es))) =
     AST (Expr (OtherExpr es)) # concat (map (\<lambda>e. preorder (AST (Expr e))) es)"
  "preorder (KW (Keyword arg v)) = KW (Keyword arg v) # preorder (AST (Expr v))"
  "preorder (AL al) = [AL al]"
  by (simp_all add: preorder.simps [of "AST (Expr (Call l f as ks))"]
      preorder.simps [of "AST (Expr (Name l i))"] preorder.simps [of "AST (Expr (Attribute l v a))"]
      preorder.simps [of "AST (Expr (Constant l c))"] preorder.simps [of "AST (Expr (OtherExpr es))"]
      preorder.simps [of "KW (Keyword arg v)"] preorder.simps [of "AL al"] comp_def)

lemma preorder_ast_simps:
  "preorder (AST (Import l names)) = AST (Import l names) # map AL names"
  "preorder (AST (ImportFrom l m names)) = AST (ImportFrom l m names) # map AL names"
  "preorder (AST (Assign l targets v)) =
     AST (Assign l targets v) # concat (map (\<lambda>e. preorder (AST (Expr e))) targets) @ preorder (AST (Expr v))"
  "preorder (AST (Node cs)) = AST (Node cs) # concat (map (\<lambda>c. preorder (AST c)) cs)"
  by (simp_all add: preorder.simps [of "AST (Import l names)"]
      preorder.simps [of "AST (ImportFrom l m names)"] preorder.simps [of "AST (Assign l targets v)"]
      preorder.simps [of "AST (Node cs)"] comp_def preorder_expr_simps)

lemma visit_expr_preorder:
  "visit_expr h e issues = emit issues (collect (map (at_expr h) (preorder (AST (Expr e)))))"
  "generic_visit_expr h e issues =
     emit issues (collect (map (at_expr h) (concat (map preorder (iter_child_nodes (AST (Expr e)))))))"
  "visit_exprs h es issues =
     emit issues (collect (map (at_expr h) (concat (map (\<lambda>e. preorder (AST (Expr e))) es))))"
  "visit_keywords h ks issues =
     emit issues (collect (map (at_expr h) (concat (map (\<lambda>k. preorder (KW k)) ks))))"
proof (induction h e issues and h e issues and h es issues and h ks issues
    rule: visit_expr_generic_visit_expr_visit_exprs_visit_keywords.induct)
  case (1 h node issues)
  then show ?case
    by (cases "h node") (simp_all add: visit_expr.simps preorder.simps [of "AST (Expr node)"])
next
  case (2 h l f as ks issues)
  then show ?case
    by (simp add: comp_def collect_append emit_bind split: sum.splits)
next
  case (8 h e es issues)
  then show ?case
    by (simp add: collect_append emit_bind split: sum.splits)
next
  case (10 h a v ks issues)
  then show ?case
    by (simp add: collect_append emit_bind preorder_expr_simps split: sum.splits)
qed (simp_all add: comp_def)


lemma collect_silent: "(\<And>x. x \<in> set xs \<Longrightarrow> f x = Inr []) \<Longrightarrow> collect (map f xs) = Inr []"
  by (induction xs) simp_all

lemma visit_preorder:
  "visit h t issues = emit issues (collect (map (at_expr h) (preorder (AST t))))"
  "visit_nodes h cs issues =
     emit issues (collect (map (at_expr h) (concat (map (\<lambda>c. preorder (AST c)) cs))))"
proof (induction h t issues and h cs issues rule: visit_visit_nodes.induct)
  case (1 h l names issues)
  have "collect (map (at_expr h) (map AL names)) = Inr []"
    by (rule collect_silent) auto
  then show ?case by (simp add: preorder_ast_simps)
next
  case (2 h l m names issues)
  have "collect (map (at_expr h) (map AL names)) = Inr []"
    by (rule collect_silent) auto
  then show ?case by (simp add: preorder_ast_simps)
next
  case (3 h l targets v issues)
  show ?case
    by (simp add: preorder_ast_simps visit_expr_preorder collect_append emit_bind split: sum.splits)
next
  case (4 h e issues)
  show ?case by (simp add: visit_expr_preorder)
next
  case (5 h cs issues)
  then show ?case by (simp add: preorder_ast_simps)
next
  case (6 h issues)
  show ?case by simp
next
  case (7 h c cs issues)
  then show ?case
    by (simp add: collect_append emit_bind split: sum.splits)
qed

lemma collect_silent_exprs:
  assumes "\<And>e. f (AST (Expr e)) = Inr []" and "\<And>k. f (KW k) = Inr []"
  shows "collect (map f (preorder (AST (Expr e)))) = Inr []"
    and "collect (map f (concat (map (\<lambda>e. preorder (AST (Expr e))) es))) = Inr []"
    and "collect (map f (concat (map (\<lambda>k. preorder (KW k)) ks))) = Inr []"
  by (induction e and es and ks rule: count_expr_count_exprs_count_keywords.induct)
     (simp_all add: preorder_expr_simps collect_append assms)

lemma visit_expr_silent:
  "visit_expr (\<lambda>e. Inr []) e issues = Inr issues"
  "visit_exprs (\<lambda>e. Inr []) es issues = Inr issues"
proof -
  have silent: "at_expr (\<lambda>e. Inr []) n = Inr []" for n
    by (cases "(\<lambda>e::expr. Inr [] :: error + string list, n)" rule: at_expr.cases) simp_all
  show "visit_expr (\<lambda>e. Inr []) e issues = Inr issues"
    by (simp add: visit_expr_preorder collect_silent silent)
  show "visit_exprs (\<lambda>e. Inr []) es issues = Inr issues"
    by (simp add: visit_expr_preorder collect_silent silent)
qed

lemma SecretsVisitor_preorder:
  "SecretsVisitor_visit t issues = emit issues (collect (map secrets_at (preorder (AST t))))"
  "SecretsVisitor_visit_nodes cs issues =
     emit issues (collect (map secrets_at (concat (map (\<lambda>c. preorder (AST c)) cs))))"
proof (induction t issues and cs issues rule: SecretsVisitor_visit_SecretsVisitor_visit_nodes.induct)
  case (1 lineno targets v issues)
  have "collect (map secrets_at (concat (map (\<lambda>e. preorder (AST (Expr e))) targets) @ preorder (AST (Expr v)))) = Inr []"
    by (simp add: collect_append collect_silent_exprs)
  then show ?case
    by (simp add: preorder_ast_simps visit_expr_silent split: sum.splits)
next
  case (2 l names issues)
  have "collect (map secrets_at (map AL names)) = Inr []"
    by (rule collect_silent) auto
  then show ?case by (simp add: preorder_ast_simps)
next
  case (3 l m names issues)
  have "collect (map secrets_at (map AL names)) = Inr []"
    by (rule collect_silent) auto
  then show ?case by (simp add: preorder_ast_simps)
next
  case (4 e issues)
  show ?case by (simp add: visit_expr_silent collect_silent_exprs)
next
  case (5 cs issues)
  then show ?case by (simp add: preorder_ast_simps)
next
  case (6 issues)
  show ?case by simp
next
  case (7 c cs issues)
  then show ?case
    by (simp add: collect_append emit_bind split: sum.splits)
qed

lemma import_names_loop_emit:
  "import_names_loop lineno names issues = emit issues (import_names_loop lineno names [])"
proof (induction names arbitrary: issues)
  case Nil
  show ?case by simp
next
  case (Cons a names)
  obtain name asname where a: "a = Alias name asname" by (cases a)
  show ?case
  proof (cases lineno)
    case None
    then show ?thesis using Cons.IH [of issues] by (simp add: a)
  next
    case (Some n)
    then show ?thesis
      using Cons.IH [of "issues @ [import_message n]"] Cons.IH [of "[import_message n]"] Cons.IH [of issues]
      by (simp add: a)
  qed
qed

lemma import_walk_loop_collect:
  "import_walk_loop nodes issues = emit issues (collect (map import_at nodes))"
proof (induction nodes issues rule: import_walk_loop.induct)
  case (2 lineno names nodes issues)
  then show ?case
    using import_names_loop_emit [of lineno names issues]
    by (cases "import_names_loop lineno names []") (simp_all add: emit_bind)
next
  case (3 lineno module names nodes issues)
  then show ?case
    by (simp add: python_json_logger_module_def Let_def split: option.splits)
qed simp_all

lemma mset_walk: "mset (walk todo) = mset (concat (map preorder todo))"
proof (induction todo rule: walk.induct)
  case 1
  show ?case by simp
next
  case (2 node todo)
  then show ?case
    by (simp add: preorder.simps [of node])
qed

section \<open>Each rule, node by node\<close>

lemma error_unique: "(x :: error) = AttributeError"
  by (cases x)

lemma collect_located:
  assumes "\<And>n. f n = (if P n then (case lineno_of n of None \<Rightarrow> Inl AttributeError | Some l \<Rightarrow> Inr (g l n)) else Inr [])"
  shows "collect (map f ns) =
    (if \<exists>n\<in>set (filter P ns). lineno_of n = None then Inl AttributeError
     else Inr (concat (map (\<lambda>n. g (the (lineno_of n)) n) (filter P ns))))"
proof (induction ns)
  case Nil
  show ?case by simp
next
  case (Cons n ns)
  show ?case
  proof (cases "P n")
    case False
    then show ?thesis using Cons.IH by (auto simp add: assms)
  next
    case True
    show ?thesis
    proof (cases "lineno_of n")
      case None
      then show ?thesis using True by (auto simp add: assms)
    next
      case (Some l)
      then show ?thesis using True Cons.IH by (auto simp add: assms)
    qed
  qed
qed

lemma collect_flagged:
  assumes "\<And>n. f n = (if P n then (case lineno_of n of None \<Rightarrow> Inl AttributeError | Some l \<Rightarrow> Inr [g l n]) else Inr [])"
  shows "collect (map f ns) =
    (if \<exists>n\<in>set (filter P ns). lineno_of n = None then Inl AttributeError
     else Inr (map (\<lambda>n. g (the (lineno_of n)) n) (filter P ns)))"
  using collect_located [of f P "\<lambda>l n. [g l n]" ns, OF assms] by auto

lemma ExecEvalVisitor_at:
  "at_expr ExecEvalVisitor_visit_Call n =
     (if exec_eval_call n
      then (case lineno_of n of None \<Rightarrow> Inl AttributeError
            | Some l \<Rightarrow> Inr [exec_eval_message l (func_id n)])
      else Inr [])"
  by (cases n rule: exec_eval_call.cases) (simp_all split: option.splits)

lemma check_exec_eval_usage_preorder:
  "check_exec_eval_usage tree =
     (if \<exists>n\<in>set (filter exec_eval_call (preorder (AST tree))). lineno_of n = None
      then Inl AttributeError
      else Inr (map (\<lambda>n. exec_eval_message (the (lineno_of n)) (func_id n))
                 (filter exec_eval_call (preorder (AST tree)))))"
  unfolding check_exec_eval_usage_def visit_preorder
  by (simp only: emit_simps collect_flagged [of "at_expr ExecEvalVisitor_visit_Call", OF ExecEvalVisitor_at])

lemma run_checks_emit:
  "run_checks cs tree all_issues = emit all_issues (run_checks cs tree [])"
proof (induction cs arbitrary: all_issues)
  case Nil
  show ?case by simp
next
  case (Cons c cs)
  show ?case
  proof (cases "c tree")
    case (Inl x)
    then show ?thesis by simp
  next
    case (Inr issues)
    then show ?thesis
      using Cons.IH [of "all_issues @ issues"] Cons.IH [of issues] by simp
  qed
qed

lemma run_checks_Cons:
  "run_checks (c # cs) tree [] =
     (case c tree of Inl x \<Rightarrow> Inl x | Inr issues \<Rightarrow> emit issues (run_checks cs tree []))"
proof (cases "c tree")
  case (Inl x)
  then show ?thesis by simp
next
  case (Inr issues)
  then show ?thesis using run_checks_emit [of cs tree issues] by simp
qed

lemma run_checks_collect: "run_checks cs tree [] = collect (map (\<lambda>c. c tree) cs)"
  by (induction cs) (simp_all add: run_checks_Cons del: run_checks.simps(2) split: sum.splits)

lemma collect_Inr_iff:
  "collect [] = Inr r \<longleftrightarrow> r = []"
  "collect (x # xs) = Inr r \<longleftrightarrow> (\<exists>a b. x = Inr a \<and> collect xs = Inr b \<and> r = a @ b)"
proof -
  show "collect [] = Inr r \<longleftrightarrow> r = []" by auto
  show "collect (x # xs) = Inr r \<longleftrightarrow> (\<exists>a b. x = Inr a \<and> collect xs = Inr b \<and> r = a @ b)"
    by (cases x; cases "collect xs") auto
qed

lemma subprocess_keywords_loop_eq:
  "subprocess_keywords_loop lineno attr kws new =
     (if \<exists>kw\<in>set kws. shell_true kw
      then (case lineno of None \<Rightarrow> Inl AttributeError
            | Some l \<Rightarrow> Inr (new @ replicate (length (filter shell_true kws)) (subprocess_message l attr)))
      else Inr new)"
proof (induction kws arbitrary: new)
  case Nil
  show ?case by simp
next
  case (Cons kw kws)
  show ?case
    using Cons.IH
    by (cases kw rule: shell_true.cases; cases lineno) (auto simp add: replicate_append_same split: bool.splits)
qed

lemma SubprocessVisitor_at:
  "at_expr SubprocessVisitor_visit_Call n =
     (if shell_true_call n
      then (case lineno_of n of None \<Rightarrow> Inl AttributeError
            | Some l \<Rightarrow> Inr (replicate (length (filter shell_true (call_keywords n)))
                               (subprocess_message l (func_attr n))))
      else Inr [])"
  by (cases n rule: attribute_call.cases)
     (auto simp add: shell_true_call_def subprocess_call_def subprocess_keywords_loop_eq
       split: option.splits)

lemma PickleVisitor_at:
  "at_expr PickleVisitor_visit_Call n =
     (if pickle_call n
      then (case lineno_of n of None \<Rightarrow> Inl AttributeError
            | Some l \<Rightarrow> Inr [pickle_message l (func_attr n)])
      else Inr [])"
  by (cases n rule: attribute_call.cases)
     (auto simp add: pickle_call_def split: option.splits)

lemma yaml_keywords_loop_eq:
  "yaml_keywords_loop kws has_safe = (has_safe \<or> (\<exists>kw\<in>set kws. safe_loader_keyword kw))"
proof (induction kws arbitrary: has_safe)
  case Nil
  show ?case by simp
next
  case (Cons kw kws)
  show ?case
    by (cases kw rule: safe_loader_keyword.cases) (auto simp add: Cons.IH)
qed

lemma YAMLVisitor_at:
  "at_expr YAMLVisitor_visit_Call n =
     (if unsafe_yaml_load n
      then (case lineno_of n of None \<Rightarrow> Inl AttributeError
            | Some l \<Rightarrow> Inr [yaml_message l])
      else Inr [])"
  by (cases n rule: attribute_call.cases)
     (auto simp add: unsafe_yaml_load_def yaml_load_call_def yaml_keywords_loop_eq
       split: option.splits)

lemma secrets_at_eq:
  "secrets_at n =
     (if secret_assignment n
      then (case lineno_of n of None \<Rightarrow> Inl AttributeError
            | Some l \<Rightarrow> Inr [secrets_message l (target_id n)])
      else Inr [])"
  by (cases n rule: secret_assignment.cases)
     (auto simp add: Let_def split: option.splits)

lemma HashVisitor_at:
  "at_expr HashVisitor_visit_Attribute n =
     (if weak_hash_attribute n
      then (case lineno_of n of None \<Rightarrow> Inl AttributeError
            | Some l \<Rightarrow> Inr [hashing_message l (attr_of n)])
      else Inr [])"
  by (cases n rule: receiver.cases)
     (auto simp add: weak_hash_attribute_def split: option.splits)

lemma check_subprocess_usage_preorder:
  "check_subprocess_usage tree =
     (if \<exists>n\<in>set (filter shell_true_call (preorder (AST tree))). lineno_of n = None
      then Inl AttributeError
      else Inr (concat (map (\<lambda>n. replicate (length (filter shell_true (call_keywords n)))
                                   (subprocess_message (the (lineno_of n)) (func_attr n)))
                 (filter shell_true_call (preorder (AST tree))))))"
  unfolding check_subprocess_usage_def visit_preorder
  by (simp only: emit_simps collect_located [of "at_expr SubprocessVisitor_visit_Call", OF SubprocessVisitor_at])

lemma check_pickle_usage_preorder:
  "check_pickle_usage tree =
     (if \<exists>n\<in>set (filter pickle_call (preorder (AST tree))). lineno_of n = None
      then Inl AttributeError
      else Inr (map (\<lambda>n. pickle_message (the (lineno_of n)) (func_attr n))
                 (filter pickle_call (preorder (AST tree)))))"
  unfolding check_pickle_usage_def visit_preorder
  by (simp only: emit_simps collect_flagged [of "at_expr PickleVisitor_visit_Call", OF PickleVisitor_at])

lemma check_yaml_load_usage_preorder:
  "check_yaml_load_usage tree =
     (if \<exists>n\<in>set (filter unsafe_yaml_load (preorder (AST tree))). lineno_of n = None
      then Inl AttributeError
      else Inr (map (\<lambda>n. yaml_message (the (lineno_of n)))
                 (filter unsafe_yaml_load (preorder (AST tree)))))"
  unfolding check_yaml_load_usage_def visit_preorder
  by (simp only: emit_simps
      collect_flagged [of "at_expr YAMLVisitor_visit_Call" _ "\<lambda>l n. yaml_message l", OF YAMLVisitor_at])

lemma check_hardcoded_secrets_preorder:
  "check_hardcoded_secrets tree =
     (if \<exists>n\<in>set (filter secret_assignment (preorder (AST tree))). lineno_of n = None
      then Inl AttributeError
      else Inr (map (\<lambda>n. secrets_message (the (lineno_of n)) (target_id n))
                 (filter secret_assignment (preorder (AST tree)))))"
  unfolding check_hardcoded_secrets_def SecretsVisitor_preorder
  by (simp only: emit_simps collect_flagged [of secrets_at, OF secrets_at_eq])

lemma check_weak_hashing_usage_preorder:
  "check_weak_hashing_usage tree =
     (if \<exists>n\<in>set (filter weak_hash_attribute (preorder (AST tree))). lineno_of n = None
      then Inl AttributeError
      else Inr (map (\<lambda>n. hashing_message (the (lineno_of n)) (attr_of n))
                 (filter weak_hash_attribute (preorder (AST tree)))))"
  unfolding check_weak_hashing_usage_def visit_preorder
  by (simp only: emit_simps collect_flagged [of "at_expr HashVisitor_visit_Attribute", OF HashVisitor_at])

lemma import_names_loop_eq:
  "import_names_loop lineno names [] =
     (if filter (\<lambda>a. python_json_logger_module (alias_name a)) names \<noteq> []
      then (case lineno of None \<Rightarrow> Inl AttributeError
            | Some l \<Rightarrow> Inr (replicate (length (filter (\<lambda>a. python_json_logger_module (alias_name a)) names))
                               (import_message l)))
      else Inr [])"
proof (induction names)
  case Nil
  show ?case by simp
next
  case (Cons a names)
  obtain name asname where a: "a = Alias name asname" by (cases a)
  show ?case
  proof (cases lineno)
    case None
    then show ?thesis
      using Cons.IH by (simp add: a python_json_logger_module_def)
  next
    case (Some l)
    then show ?thesis
      using Cons.IH import_names_loop_emit [of lineno names "[import_message l]"]
      by (simp add: a python_json_logger_module_def)
  qed
qed

lemma import_at_eq:
  "import_at n =
     (if flagged_import n
      then (case lineno_of n of None \<Rightarrow> Inl AttributeError | Some l \<Rightarrow> Inr (import_issues l n))
      else Inr [])"
  by (cases n rule: import_at.cases)
     (auto simp add: flagged_import_def import_issues_def import_names_loop_eq split: option.splits)

lemma check_python_json_logger_import_walk:
  "check_python_json_logger_import tree =
     (if \<exists>n\<in>set (filter flagged_import (walk [AST tree])). lineno_of n = None
      then Inl AttributeError
      else Inr (concat (map (\<lambda>n. import_issues (the (lineno_of n)) n)
                 (filter flagged_import (walk [AST tree])))))"
  unfolding check_python_json_logger_import_def import_walk_loop_collect
  by (simp only: emit_simps collect_located [of import_at, OF import_at_eq])

lemma collect_isl: "isl (collect rs) \<longleftrightarrow> (\<exists>r\<in>set rs. isl r)"
proof (induction rs)
  case Nil
  show ?case by simp
next
  case (Cons r rs)
  then show ?case
    by (cases r; cases "collect rs") auto
qed

lemma run_all_checks_parts:
  "run_all_checks tree = Inr r \<longleftrightarrow>
     (\<exists>a b c d e f g.
        check_exec_eval_usage tree = Inr a \<and>
        check_python_json_logger_import tree = Inr b \<and>
        check_subprocess_usage tree = Inr c \<and>
        check_pickle_usage tree = Inr d \<and>
        check_yaml_load_usage tree = Inr e \<and>
        check_hardcoded_secrets tree = Inr f \<and>
        check_weak_hashing_usage tree = Inr g \<and>
        r = a @ b @ c @ d @ e @ f @ g)"
  unfolding run_all_checks_def checks_def run_checks_collect
  by (simp only: list.map collect_Inr_iff) blast

section \<open>The shapes, the descendants and the form of a diagnostic\<close>

lemma shell_true_iff:
  "shell_true kw \<longleftrightarrow> (\<exists>l. kw = Keyword (Some ''shell'') (Constant l (CBool True)))"
  by (cases kw rule: shell_true.cases) auto

lemma attribute_call_iff:
  "attribute_call n = Some (m, a) \<longleftrightarrow>
     (\<exists>l l1 l2 as ks. n = AST (Expr (Call l (Attribute l1 (Name l2 m) a) as ks)))"
  by (cases n rule: attribute_call.cases) auto

lemma safe_loader_keyword_iff:
  "safe_loader_keyword kw \<longleftrightarrow> (\<exists>l obj. kw = Keyword (Some ''Loader'') (Attribute l obj ''SafeLoader''))"
  by (cases kw rule: safe_loader_keyword.cases) auto

lemma secret_assignment_iff:
  "secret_assignment n \<longleftrightarrow>
     (\<exists>l l1 l2 i s. n = AST (Assign l [Name l1 i] (Constant l2 (CStr s))) \<and>
        (\<exists>w \<in> set [''key'', ''secret'', ''password'', ''token'', ''passwd'']. sublist w (lower i)))"
  by (cases n rule: secret_assignment.cases) auto

lemma collect_member:
  "collect (map f ns) = Inr x \<Longrightarrow> s \<in> set x \<Longrightarrow> \<exists>n\<in>set ns. \<exists>xs. f n = Inr xs \<and> s \<in> set xs"
proof (induction ns arbitrary: x)
  case Nil
  then show ?case by simp
next
  case (Cons n ns)
  from Cons.prems(1) have "collect (f n # map f ns) = Inr x"
    by simp
  then obtain a b where ab: "f n = Inr a" "collect (map f ns) = Inr b" "x = a @ b"
    unfolding collect_Inr_iff by blast
  show ?case
  proof (cases "s \<in> set a")
    case True
    then show ?thesis using ab(1) by auto
  next
    case False
    then have "s \<in> set b" using Cons.prems(2) ab(3) by simp
    then show ?thesis using Cons.IH [OF ab(2)] by auto
  qed
qed

lemma set_walk: "set (walk [AST tree]) = set (preorder (AST tree))"
  using mset_walk [of "[AST tree]"] by (metis concat.simps(1) concat.simps(2) append_Nil2 list.simps(8) list.simps(9) mset_eq_setD)

lemma exec_eval_shape:
  "at_expr ExecEvalVisitor_visit_Call n = Inr xs \<Longrightarrow> s \<in> set xs \<Longrightarrow>
     \<exists>N rest. lineno_of n = Some N \<and>
       s = ''[Security]'' @ ''[CVE-2025-3248]'' @ '' Line '' @ str_int N @ '':'' @ rest"
  unfolding ExecEvalVisitor_at
  by (auto simp add: exec_eval_message_def split: if_splits option.splits)

lemma import_shape:
  "import_at n = Inr xs \<Longrightarrow> s \<in> set xs \<Longrightarrow>
     \<exists>N rest. lineno_of n = Some N \<and>
       s = ''[Security]'' @ ''[CVE-2025-27607]'' @ '' Line '' @ str_int N @ '':'' @ rest"
  unfolding import_at_eq
  by (auto simp add: import_issues_def import_message_def import_from_message_def
      split: if_splits option.splits)

lemma subprocess_shape:
  "at_expr SubprocessVisitor_visit_Call n = Inr xs \<Longrightarrow> s \<in> set xs \<Longrightarrow>
     \<exists>N rest. lineno_of n = Some N \<and> s = ''[Security]'' @ [] @ '' Line '' @ str_int N @ '':'' @ rest"
  unfolding SubprocessVisitor_at
  by (auto simp add: subprocess_message_def split: if_splits option.splits)

lemma pickle_shape:
  "at_expr PickleVisitor_visit_Call n = Inr xs \<Longrightarrow> s \<in> set xs \<Longrightarrow>
     \<exists>N rest. lineno_of n = Some N \<and> s = ''[Security]'' @ [] @ '' Line '' @ str_int N @ '':'' @ rest"
  unfolding PickleVisitor_at
  by (auto simp add: pickle_message_def split: if_splits option.splits)

lemma yaml_shape:
  "at_expr YAMLVisitor_visit_Call n = Inr xs \<Longrightarrow> s \<in> set xs \<Longrightarrow>
     \<exists>N rest. lineno_of n = Some N \<and> s = ''[Security]'' @ [] @ '' Line '' @ str_int N @ '':'' @ rest"
  unfolding YAMLVisitor_at
  by (auto simp add: yaml_message_def split: if_splits option.splits)

lemma secrets_shape:
  "secrets_at n = Inr xs \<Longrightarrow> s \<in> set xs \<Longrightarrow>
     \<exists>N rest. lineno_of n = Some N \<and> s = ''[Security]'' @ [] @ '' Line '' @ str_int N @ '':'' @ rest"
  unfolding secrets_at_eq
  by (auto simp add: secrets_message_def split: if_splits option.splits)

lemma hashing_shape:
  "at_expr HashVisitor_visit_Attribute n = Inr xs \<Longrightarrow> s \<in> set xs \<Longrightarrow>
     \<exists>N rest. lineno_of n = Some N \<and> s = ''[Security]'' @ [] @ '' Line '' @ str_int N @ '':'' @ rest"
  unfolding HashVisitor_at
  by (auto simp add: hashing_message_def split: if_splits option.splits)

lemma visit_member:
  assumes "visit h tree [] = Inr x" and "s \<in> set x"
  shows "\<exists>n\<in>set (preorder (AST tree)). \<exists>xs. at_expr h n = Inr xs \<and> s \<in> set xs"
proof -
  have "collect (map (at_expr h) (preorder (AST tree))) = Inr x"
    using assms(1) by (simp add: visit_preorder)
  then show ?thesis
    using assms(2) by (rule collect_member)
qed

lemma secrets_member:
  assumes "check_hardcoded_secrets tree = Inr x" and "s \<in> set x"
  shows "\<exists>n\<in>set (preorder (AST tree)). \<exists>xs. secrets_at n = Inr xs \<and> s \<in> set xs"
proof -
  have "collect (map secrets_at (preorder (AST tree))) = Inr x"
    using assms(1) by (simp add: check_hardcoded_secrets_def SecretsVisitor_preorder)
  then show ?thesis
    using assms(2) by (rule collect_member)
qed

lemma import_member:
  assumes "check_python_json_logger_import tree = Inr x" and "s \<in> set x"
  shows "\<exists>n\<in>set (preorder (AST tree)). \<exists>xs. import_at n = Inr xs \<and> s \<in> set xs"
proof -
  have "collect (map import_at (walk [AST tree])) = Inr x"
    using assms(1) by (simp add: check_python_json_logger_import_def import_walk_loop_collect)
  then have "\<exists>n\<in>set (walk [AST tree]). \<exists>xs. import_at n = Inr xs \<and> s \<in> set xs"
    using assms(2) by (rule collect_member)
  then show ?thesis
    unfolding set_walk .
qed

lemma collect_filter_silent:
  assumes "\<And>n. \<not> Q n \<Longrightarrow> f n = Inr []"
  shows "collect (map f (filter Q ns)) = collect (map f ns)"
  by (induction ns) (simp_all add: assms split: sum.splits)

lemma called_module_iff:
  "called_module n = Some m \<longleftrightarrow>
     (\<exists>l l1 l2 a as ks. n = AST (Expr (Call l (Attribute l1 (Name l2 m) a) as ks)))"
  by (cases n rule: called_module.cases) auto

lemma attribute_call_called_module:
  "attribute_call n = Some (m, a) \<Longrightarrow> called_module n = Some m"
  by (cases n rule: attribute_call.cases) auto

lemma receiver_iff:
  "receiver n = Some m \<longleftrightarrow> (\<exists>l l1 a. n = AST (Expr (Attribute l (Name l1 m) a)))"
  by (cases n rule: receiver.cases) auto

lemma SubprocessVisitor_needs_name:
  "at_expr SubprocessVisitor_visit_Call n \<noteq> Inr [] \<Longrightarrow> called_module n = Some ''subprocess''"
  unfolding SubprocessVisitor_at shell_true_call_def subprocess_call_def
  by (auto simp add: attribute_call_called_module split: if_splits)

lemma PickleVisitor_needs_name:
  "at_expr PickleVisitor_visit_Call n \<noteq> Inr [] \<Longrightarrow> called_module n = Some ''pickle''"
  unfolding PickleVisitor_at pickle_call_def
  by (auto simp add: attribute_call_called_module split: if_splits)

lemma YAMLVisitor_needs_name:
  "at_expr YAMLVisitor_visit_Call n \<noteq> Inr [] \<Longrightarrow> called_module n = Some ''yaml''"
  unfolding YAMLVisitor_at unsafe_yaml_load_def yaml_load_call_def
  by (auto simp add: attribute_call_called_module split: if_splits)

lemma HashVisitor_needs_name:
  "at_expr HashVisitor_visit_Attribute n \<noteq> Inr [] \<Longrightarrow> receiver n = Some ''hashlib''"
  unfolding HashVisitor_at weak_hash_attribute_def
  by (auto split: if_splits)

lemma visit_only_at:
  assumes "\<And>n. at_expr h n \<noteq> Inr [] \<Longrightarrow> Q n"
  shows "visit h tree [] = collect (map (at_expr h) (filter Q (preorder (AST tree))))"
proof -
  have "collect (map (at_expr h) (filter Q (preorder (AST tree)))) =
      collect (map (at_expr h) (preorder (AST tree)))"
    using assms by (intro collect_filter_silent) blast
  then show ?thesis
    by (simp add: visit_preorder)
qed

section \<open>The claims\<close>

text \<open>
  Claim C1. \<^verbatim>\<open>run_all_checks(tree)\<close> returns a list exactly when each of the seven checks
  returns one, and the list is then the concatenation of their outputs in the registry
  order: exec/eval usage, python_json_logger import, subprocess usage, pickle usage, yaml
  load usage, hardcoded secrets, weak hashing. The result is a function of the tree alone
  (each check starts from a fresh list and nothing outlives a call), so two calls on the
  same tree return the same list.
\<close>

theorem run_all_checks_concatenation:
  "run_all_checks tree = Inr r \<longleftrightarrow>
     (\<exists>a b c d e f g.
        check_exec_eval_usage tree = Inr a \<and>
        check_python_json_logger_import tree = Inr b \<and>
        check_subprocess_usage tree = Inr c \<and>
        check_pickle_usage tree = Inr d \<and>
        check_yaml_load_usage tree = Inr e \<and>
        check_hardcoded_secrets tree = Inr f \<and>
        check_weak_hashing_usage tree = Inr g \<and>
        r = a @ b @ c @ d @ e @ f @ g)"
proof -
  have loop: "run_all_checks tree =
      collect
       [check_exec_eval_usage tree, check_python_json_logger_import tree,
        check_subprocess_usage tree, check_pickle_usage tree, check_yaml_load_usage tree,
        check_hardcoded_secrets tree, check_weak_hashing_usage tree]"
    unfolding run_all_checks_def checks_def run_checks_collect by simp
  show ?thesis
    unfolding loop collect_Inr_iff by blast
qed

text \<open>
  On the example tree every check returns, and the result is their outputs in order.
\<close>

theorem run_all_checks_concatenation_witness:
  "run_all_checks example_tree =
     Inr [exec_eval_message 4 ''eval'',
          import_message 1, import_from_message 2,
          subprocess_message 5 ''run'',
          pickle_message 6 ''loads'',
          yaml_message 7,
          secrets_message 3 ''API_KEY'',
          hashing_message 8 ''md5'']"
proof -
  have a: "check_exec_eval_usage example_tree = Inr [exec_eval_message 4 ''eval'']"
    by code_simp
  have b: "check_python_json_logger_import example_tree = Inr [import_message 1, import_from_message 2]"
    by code_simp
  have c: "check_subprocess_usage example_tree = Inr [subprocess_message 5 ''run'']"
    by code_simp
  have d: "check_pickle_usage example_tree = Inr [pickle_message 6 ''loads'']"
    by code_simp
  have e: "check_yaml_load_usage example_tree = Inr [yaml_message 7]"
    by code_simp
  have f: "check_hardcoded_secrets example_tree = Inr [secrets_message 3 ''API_KEY'']"
    by code_simp
  have g: "check_weak_hashing_usage example_tree = Inr [hashing_message 8 ''md5'']"
    by code_simp
  show ?thesis
    using run_all_checks_concatenation [of example_tree
        "[exec_eval_message 4 ''eval''] @ [import_message 1, import_from_message 2] @
         [subprocess_message 5 ''run''] @ [pickle_message 6 ''loads''] @ [yaml_message 7] @
         [secrets_message 3 ''API_KEY''] @ [hashing_message 8 ''md5'']"]
    by (simp add: a b c d e f g)
qed

text \<open>
  Claim C2 says that when exactly one check raises, \<^verbatim>\<open>run_all_checks\<close> still returns, with
  the diagnostics of the other rules. The loop of \<^verbatim>\<open>run_all_checks\<close> has no \<^verbatim>\<open>try\<close>: on a tree
  with an \<^verbatim>\<open>exec()\<close> call that has no \<^verbatim>\<open>lineno\<close> and a hard-coded password on line 2, only
  \<^verbatim>\<open>check_exec_eval_usage\<close> raises, the secrets rule alone would report the password, and
  \<^verbatim>\<open>run_all_checks\<close> raises.
\<close>

theorem run_all_checks_isolation_counterexample:
  "check_exec_eval_usage unlocated_tree = Inl AttributeError \<and>
   check_python_json_logger_import unlocated_tree = Inr [] \<and>
   check_subprocess_usage unlocated_tree = Inr [] \<and>
   check_pickle_usage unlocated_tree = Inr [] \<and>
   check_yaml_load_usage unlocated_tree = Inr [] \<and>
   check_hardcoded_secrets unlocated_tree = Inr [secrets_message 2 ''password''] \<and>
   check_weak_hashing_usage unlocated_tree = Inr [] \<and>
   run_all_checks unlocated_tree = Inl AttributeError"
  by code_simp

text \<open>
  Claim C2, as amended. \<^verbatim>\<open>run_all_checks\<close> raises exactly when one of the registered
  checks raises on the tree: the exception leaves \<^verbatim>\<open>run_all_checks\<close> and no diagnostic of
  any rule is returned.
\<close>

theorem run_all_checks_propagates:
  "isl (run_all_checks tree) \<longleftrightarrow> (\<exists>check\<in>set checks. isl (check tree))"
  unfolding run_all_checks_def run_checks_collect collect_isl by simp

text \<open>
  On the tree of the counterexample the first check raises, and so does \<^verbatim>\<open>run_all_checks\<close>.
\<close>

theorem run_all_checks_propagates_witness:
  "isl (check_exec_eval_usage unlocated_tree) \<and> isl (run_all_checks unlocated_tree)"
proof -
  have raised: "isl (check_exec_eval_usage unlocated_tree)"
    by code_simp
  then have "\<exists>check\<in>set checks. isl (check unlocated_tree)"
    by (simp add: checks_def)
  then show ?thesis
    using raised run_all_checks_propagates [of unlocated_tree] by simp
qed

text \<open>
  Claim C3. \<^verbatim>\<open>check_exec_eval_usage\<close> returns one diagnostic for every call of a plain name
  \<^verbatim>\<open>exec\<close> or \<^verbatim>\<open>eval\<close> in the tree, in document order, and nothing for any other node: a call
  through an attribute (\<^verbatim>\<open>obj.eval(...)\<close>) or of another name is not an \<open>exec_eval_call\<close>.
  The diagnostic carries the line of the call and starts with the fixed tag
  \<^verbatim>\<open>[Security][CVE-2025-3248]\<close>. A matching call has a source line in every parsed tree;
  where one has none, reading it raises.
\<close>

theorem check_exec_eval_usage_exact:
  "check_exec_eval_usage tree =
     (if \<exists>n\<in>set (filter exec_eval_call (preorder (AST tree))). lineno_of n = None
      then Inl AttributeError
      else Inr (map (\<lambda>n. exec_eval_message (the (lineno_of n)) (func_id n))
                 (filter exec_eval_call (preorder (AST tree))))) \<and>
   prefix (''[Security][CVE-2025-3248] Line '' @ str_int N @ '':'') (exec_eval_message N i)"
  using check_exec_eval_usage_preorder [of tree] by (simp add: exec_eval_message_def)

text \<open>
  The example tree has one such call, \<^verbatim>\<open>eval(x)\<close> on line 4.
\<close>

theorem check_exec_eval_usage_exact_witness:
  "check_exec_eval_usage example_tree =
     Inr [''[Security][CVE-2025-3248] Line 4: Use of 'eval()' detected. This can lead to code injection (e.g. CVE-2025-3248 in Langflow). Consider safer alternatives (e.g., ast.literal_eval) or explicit parsing.'']"
proof -
  have nodes: "filter exec_eval_call (preorder (AST example_tree)) =
      [AST (Expr (Call (Some 4) (Name (Some 4) ''eval'') [Name (Some 4) ''x''] []))]"
    by code_simp
  have message: "exec_eval_message 4 ''eval'' =
      ''[Security][CVE-2025-3248] Line 4: Use of 'eval()' detected. This can lead to code injection (e.g. CVE-2025-3248 in Langflow). Consider safer alternatives (e.g., ast.literal_eval) or explicit parsing.''"
    by code_simp
  show ?thesis
    using check_exec_eval_usage_exact [of example_tree]
    by (simp add: nodes message)
qed

text \<open>
  Claim C4. \<^verbatim>\<open>check_subprocess_usage\<close> returns diagnostics exactly for the calls
  \<^verbatim>\<open>subprocess.run\<close>, \<^verbatim>\<open>subprocess.Popen\<close>, \<^verbatim>\<open>subprocess.call\<close> and \<^verbatim>\<open>subprocess.check_output\<close> that
  carry a keyword \<^verbatim>\<open>shell\<close> whose value is the literal \<^verbatim>\<open>True\<close> (\<open>shell_true_call\<close>), in document
  order: one for each such keyword of the call, so at least one per such call. A call without
  the keyword, with \<^verbatim>\<open>shell=False\<close> or with any other expression as the value is not a
  \<open>shell_true_call\<close> and gets none. The diagnostic carries the line of the call.
\<close>

theorem check_subprocess_usage_exact:
  "check_subprocess_usage tree =
     (if \<exists>n\<in>set (filter shell_true_call (preorder (AST tree))). lineno_of n = None
      then Inl AttributeError
      else Inr (concat (map (\<lambda>n. replicate (length (filter shell_true (call_keywords n)))
                                   (subprocess_message (the (lineno_of n)) (func_attr n)))
                 (filter shell_true_call (preorder (AST tree)))))) \<and>
   (shell_true_call n \<longleftrightarrow>
      (\<exists>l l1 l2 a as ks. n = AST (Expr (Call l (Attribute l1 (Name l2 ''subprocess'') a) as ks)) \<and>
         a \<in> {''run'', ''Popen'', ''call'', ''check_output''} \<and>
         (\<exists>kw\<in>set ks. \<exists>l3. kw = Keyword (Some ''shell'') (Constant l3 (CBool True))))) \<and>
   (shell_true_call n \<longleftrightarrow> 0 < length (filter shell_true (call_keywords n)) \<and> subprocess_call n) \<and>
   prefix (''[Security] Line '' @ str_int N @ '':'') (subprocess_message N a)"
proof -
  have shape: "shell_true_call n \<longleftrightarrow>
      (\<exists>l l1 l2 a as ks. n = AST (Expr (Call l (Attribute l1 (Name l2 ''subprocess'') a) as ks)) \<and>
         a \<in> {''run'', ''Popen'', ''call'', ''check_output''} \<and>
         (\<exists>kw\<in>set ks. \<exists>l3. kw = Keyword (Some ''shell'') (Constant l3 (CBool True))))"
    unfolding shell_true_call_def subprocess_call_def
    by (cases n rule: attribute_call.cases) (auto simp add: shell_true_iff)
  have count: "shell_true_call n \<longleftrightarrow> 0 < length (filter shell_true (call_keywords n)) \<and> subprocess_call n"
    unfolding shell_true_call_def by (auto simp add: filter_empty_conv)
  have tag: "prefix (''[Security] Line '' @ str_int N @ '':'') (subprocess_message N a)"
    by (simp add: subprocess_message_def)
  show ?thesis
    using check_subprocess_usage_preorder [of tree] shape count tag by blast
qed

text \<open>
  The example tree has \<^verbatim>\<open>subprocess.run(cmd, shell=True)\<close> on line 5; the quiet tree has the same
  call with \<^verbatim>\<open>shell=False\<close>, with \<^verbatim>\<open>shell=flag\<close> and without the keyword.
\<close>

theorem check_subprocess_usage_exact_witness:
  "check_subprocess_usage example_tree =
     Inr [''[Security] Line 5: Use of subprocess.run() with shell=True. Risk of shell injection. Recommendation: Use a list of arguments and shell=False.''] \<and>
   check_subprocess_usage quiet_tree = Inr []"
proof -
  have nodes: "filter shell_true_call (preorder (AST example_tree)) =
      [AST (Expr (Call (Some 5) (Attribute (Some 5) (Name (Some 5) ''subprocess'') ''run'')
              [Name (Some 5) ''cmd''] [Keyword (Some ''shell'') (Constant (Some 5) (CBool True))]))]"
    by code_simp
  have message: "subprocess_message 5 ''run'' =
      ''[Security] Line 5: Use of subprocess.run() with shell=True. Risk of shell injection. Recommendation: Use a list of arguments and shell=False.''"
    by code_simp
  have quiet: "filter shell_true_call (preorder (AST quiet_tree)) = []"
    by code_simp
  have "check_subprocess_usage example_tree = Inr [subprocess_message 5 ''run'']"
    using check_subprocess_usage_exact [of example_tree] by (simp add: nodes)
  moreover have "check_subprocess_usage quiet_tree = Inr []"
    using check_subprocess_usage_exact [of quiet_tree] by (simp add: quiet)
  ultimately show ?thesis
    by (simp add: message)
qed

text \<open>
  Claim C5. \<^verbatim>\<open>check_yaml_load_usage\<close> returns exactly one diagnostic, at the line of the call,
  for every call \<^verbatim>\<open>yaml.load(...)\<close> that has no keyword \<^verbatim>\<open>Loader\<close> whose value is an attribute
  access ending in \<^verbatim>\<open>SafeLoader\<close>, in document order, and none for a \<^verbatim>\<open>yaml.load\<close> call that has
  such a keyword (nor for any other node).
\<close>

theorem check_yaml_load_usage_exact:
  "check_yaml_load_usage tree =
     (if \<exists>n\<in>set (filter unsafe_yaml_load (preorder (AST tree))). lineno_of n = None
      then Inl AttributeError
      else Inr (map (\<lambda>n. yaml_message (the (lineno_of n)))
                 (filter unsafe_yaml_load (preorder (AST tree))))) \<and>
   (unsafe_yaml_load n \<longleftrightarrow>
      (\<exists>l l1 l2 as ks. n = AST (Expr (Call l (Attribute l1 (Name l2 ''yaml'') ''load'') as ks)) \<and>
         \<not> (\<exists>kw\<in>set ks. \<exists>l3 obj. kw = Keyword (Some ''Loader'') (Attribute l3 obj ''SafeLoader'')))) \<and>
   prefix (''[Security] Line '' @ str_int N @ '':'') (yaml_message N)"
proof -
  have shape: "unsafe_yaml_load n \<longleftrightarrow>
      (\<exists>l l1 l2 as ks. n = AST (Expr (Call l (Attribute l1 (Name l2 ''yaml'') ''load'') as ks)) \<and>
         \<not> (\<exists>kw\<in>set ks. \<exists>l3 obj. kw = Keyword (Some ''Loader'') (Attribute l3 obj ''SafeLoader'')))"
    unfolding unsafe_yaml_load_def yaml_load_call_def
    by (cases n rule: attribute_call.cases) (auto simp add: safe_loader_keyword_iff)
  have tag: "prefix (''[Security] Line '' @ str_int N @ '':'') (yaml_message N)"
    by (simp add: yaml_message_def)
  show ?thesis
    using check_yaml_load_usage_preorder [of tree] shape tag by blast
qed

text \<open>
  The example tree has \<^verbatim>\<open>yaml.load(data, yaml.SafeLoader)\<close> on line 7; the quiet tree has
  \<^verbatim>\<open>yaml.load(d, Loader=anything.SafeLoader)\<close>.
\<close>

theorem check_yaml_load_usage_exact_witness:
  "check_yaml_load_usage example_tree =
     Inr [''[Security] Line 7: Use of yaml.load() without SafeLoader. Unsafe YAML loading can lead to code execution. Recommendation: Use yaml.safe_load() or specify Loader=yaml.SafeLoader.''] \<and>
   check_yaml_load_usage quiet_tree = Inr []"
proof -
  have nodes: "filter unsafe_yaml_load (preorder (AST example_tree)) =
      [AST (Expr (Call (Some 7) (Attribute (Some 7) (Name (Some 7) ''yaml'') ''load'')
              [Name (Some 7) ''data'', Attribute (Some 7) (Name (Some 7) ''yaml'') ''SafeLoader''] []))]"
    by code_simp
  have message: "yaml_message 7 =
      ''[Security] Line 7: Use of yaml.load() without SafeLoader. Unsafe YAML loading can lead to code execution. Recommendation: Use yaml.safe_load() or specify Loader=yaml.SafeLoader.''"
    by code_simp
  have quiet: "filter unsafe_yaml_load (preorder (AST quiet_tree)) = []"
    by code_simp
  have "check_yaml_load_usage example_tree = Inr [yaml_message 7]"
    using check_yaml_load_usage_exact [of example_tree] by (simp add: nodes)
  moreover have "check_yaml_load_usage quiet_tree = Inr []"
    using check_yaml_load_usage_exact [of quiet_tree] by (simp add: quiet)
  ultimately show ?thesis
    by (simp add: message)
qed

text \<open>
  Claim C6. \<^verbatim>\<open>check_hardcoded_secrets\<close> returns a diagnostic for an assignment if and only if
  it has exactly one target, the target is a plain name, the value is a string literal and
  the lowered name contains one of \<^verbatim>\<open>key\<close>, \<^verbatim>\<open>secret\<close>, \<^verbatim>\<open>password\<close>, \<^verbatim>\<open>token\<close>, \<^verbatim>\<open>passwd\<close>: one
  diagnostic for each such assignment, in document order, at its line. The early return of
  \<^verbatim>\<open>visit_Assign\<close> loses nothing: the children of an assignment are expressions, which hold
  no assignment.
\<close>

theorem check_hardcoded_secrets_exact:
  "check_hardcoded_secrets tree =
     (if \<exists>n\<in>set (filter secret_assignment (preorder (AST tree))). lineno_of n = None
      then Inl AttributeError
      else Inr (map (\<lambda>n. secrets_message (the (lineno_of n)) (target_id n))
                 (filter secret_assignment (preorder (AST tree))))) \<and>
   (secret_assignment n \<longleftrightarrow>
     (\<exists>l l1 l2 i s. n = AST (Assign l [Name l1 i] (Constant l2 (CStr s))) \<and>
        (\<exists>w \<in> {''key'', ''secret'', ''password'', ''token'', ''passwd''}. sublist w (lower i)))) \<and>
   prefix (''[Security] Line '' @ str_int N @ '':'') (secrets_message N i)"
proof -
  have tag: "prefix (''[Security] Line '' @ str_int N @ '':'') (secrets_message N i)"
    by (simp add: secrets_message_def)
  have shape: "secret_assignment n \<longleftrightarrow>
     (\<exists>l l1 l2 i s. n = AST (Assign l [Name l1 i] (Constant l2 (CStr s))) \<and>
        (\<exists>w \<in> {''key'', ''secret'', ''password'', ''token'', ''passwd''}. sublist w (lower i)))"
    using secret_assignment_iff [of n] by simp
  show ?thesis
    using check_hardcoded_secrets_preorder [of tree] shape tag by blast
qed

text \<open>
  The example tree has \<^verbatim>\<open>API_KEY = "abc"\<close> on line 3 (matched through the lowered name); the
  quiet tree has \<^verbatim>\<open>key1 = key2 = "abc"\<close> (two targets), \<^verbatim>\<open>token = 5\<close> and
  \<^verbatim>\<open>cfg.password = "abc"\<close>.
\<close>

theorem check_hardcoded_secrets_exact_witness:
  "check_hardcoded_secrets example_tree =
     Inr [''[Security] Line 3: Assignment to 'API_KEY' with a literal string. Hard-coded secret detected. Recommendation: Store secrets in environment variables or a secrets manager.''] \<and>
   check_hardcoded_secrets quiet_tree = Inr []"
proof -
  have nodes: "filter secret_assignment (preorder (AST example_tree)) =
      [AST (Assign (Some 3) [Name (Some 3) ''API_KEY''] (Constant (Some 3) (CStr ''abc'')))]"
    by code_simp
  have message: "secrets_message 3 ''API_KEY'' =
      ''[Security] Line 3: Assignment to 'API_KEY' with a literal string. Hard-coded secret detected. Recommendation: Store secrets in environment variables or a secrets manager.''"
    by code_simp
  have quiet: "filter secret_assignment (preorder (AST quiet_tree)) = []"
    by code_simp
  have "check_hardcoded_secrets example_tree = Inr [secrets_message 3 ''API_KEY'']"
    using check_hardcoded_secrets_exact [of example_tree] by (simp add: nodes)
  moreover have "check_hardcoded_secrets quiet_tree = Inr []"
    using check_hardcoded_secrets_exact [of quiet_tree] by (simp add: quiet)
  ultimately show ?thesis
    by (simp add: message)
qed

text \<open>
  Claim C7. \<^verbatim>\<open>check_python_json_logger_import\<close> returns, for every \<^verbatim>\<open>Import\<close> of the tree, one
  diagnostic for each alias whose name is \<^verbatim>\<open>python_json_logger\<close> or starts with
  \<^verbatim>\<open>python_json_logger.\<close>, at the line of the import statement, and one diagnostic for every
  \<^verbatim>\<open>ImportFrom\<close> whose module is \<^verbatim>\<open>python_json_logger\<close> or starts with \<^verbatim>\<open>python_json_logger.\<close>;
  no other node gets one. The diagnostics come in the order of \<^verbatim>\<open>ast.walk\<close> (breadth first),
  which yields every node of the tree exactly once.
\<close>

theorem check_python_json_logger_import_exact:
  "check_python_json_logger_import tree =
     (if \<exists>n\<in>set (filter flagged_import (walk [AST tree])). lineno_of n = None
      then Inl AttributeError
      else Inr (concat (map (\<lambda>n. import_issues (the (lineno_of n)) n)
                 (filter flagged_import (walk [AST tree]))))) \<and>
   mset (walk [AST tree]) = mset (preorder (AST tree)) \<and>
   import_issues N (AST (Import l names)) =
     replicate (length (filter (\<lambda>a. alias_name a = ''python_json_logger'' \<or>
                                    prefix ''python_json_logger.'' (alias_name a)) names))
       (import_message N) \<and>
   import_issues N (AST (ImportFrom l module names)) =
     (if module = Some ''python_json_logger'' \<or>
         (\<exists>m. module = Some m \<and> prefix ''python_json_logger.'' m)
      then [import_from_message N] else []) \<and>
   (flagged_import n \<longleftrightarrow> import_issues N n \<noteq> []) \<and>
   prefix (''[Security][CVE-2025-27607] Line '' @ str_int N @ '':'') (import_message N) \<and>
   prefix (''[Security][CVE-2025-27607] Line '' @ str_int N @ '':'') (import_from_message N)"
proof -
  have nodes: "mset (walk [AST tree]) = mset (preorder (AST tree))"
    using mset_walk [of "[AST tree]"] by simp
  have imp: "import_issues N (AST (Import l names)) =
     replicate (length (filter (\<lambda>a. alias_name a = ''python_json_logger'' \<or>
                                    prefix ''python_json_logger.'' (alias_name a)) names))
       (import_message N)"
    by (simp add: import_issues_def python_json_logger_module_def)
  have imp_from: "import_issues N (AST (ImportFrom l module names)) =
     (if module = Some ''python_json_logger'' \<or>
         (\<exists>m. module = Some m \<and> prefix ''python_json_logger.'' m)
      then [import_from_message N] else [])"
    by (cases module) (simp_all add: import_issues_def python_json_logger_module_def)
  have flagged: "flagged_import n \<longleftrightarrow> import_issues N n \<noteq> []"
    by (auto simp add: flagged_import_def import_issues_def)
  have tags: "prefix (''[Security][CVE-2025-27607] Line '' @ str_int N @ '':'') (import_message N)"
    "prefix (''[Security][CVE-2025-27607] Line '' @ str_int N @ '':'') (import_from_message N)"
    by (simp_all add: import_message_def import_from_message_def)
  show ?thesis
    using check_python_json_logger_import_walk [of tree] nodes imp imp_from flagged tags
    by blast
qed

text \<open>
  The example tree imports \<^verbatim>\<open>python_json_logger.jsonlogger\<close> and \<^verbatim>\<open>os\<close> on line 1 and has
  \<^verbatim>\<open>from python_json_logger import JsonFormatter\<close> on line 2; the quiet tree imports
  \<^verbatim>\<open>python_json_logger_extra\<close> and has \<^verbatim>\<open>from . import python_json_logger\<close>.
\<close>

theorem check_python_json_logger_import_exact_witness:
  "check_python_json_logger_import example_tree =
     Inr [''[Security][CVE-2025-27607] Line 1: 'python_json_logger' import detected. This package was vulnerable to RCE between Dec 30, 2024 and Mar 4, 2025 (CVE-2025-27607). Update to a patched version or remove this dependency.'',
          ''[Security][CVE-2025-27607] Line 2: 'from python_json_logger import ...' detected. This package was vulnerable to RCE between Dec 30, 2024 and Mar 4, 2025 (CVE-2025-27607). Update to a patched version or remove this dependency.''] \<and>
   check_python_json_logger_import quiet_tree = Inr []"
proof -
  have nodes: "filter flagged_import (walk [AST example_tree]) =
      [AST (Import (Some 1) [Alias ''python_json_logger.jsonlogger'' None, Alias ''os'' None]),
       AST (ImportFrom (Some 2) (Some ''python_json_logger'') [Alias ''JsonFormatter'' None])]"
    by code_simp
  have issues: "import_issues 1 (AST (Import (Some 1) [Alias ''python_json_logger.jsonlogger'' None, Alias ''os'' None])) = [import_message 1]"
    "import_issues 2 (AST (ImportFrom (Some 2) (Some ''python_json_logger'') [Alias ''JsonFormatter'' None])) = [import_from_message 2]"
    by code_simp+
  have messages: "import_message 1 =
      ''[Security][CVE-2025-27607] Line 1: 'python_json_logger' import detected. This package was vulnerable to RCE between Dec 30, 2024 and Mar 4, 2025 (CVE-2025-27607). Update to a patched version or remove this dependency.''"
    "import_from_message 2 =
      ''[Security][CVE-2025-27607] Line 2: 'from python_json_logger import ...' detected. This package was vulnerable to RCE between Dec 30, 2024 and Mar 4, 2025 (CVE-2025-27607). Update to a patched version or remove this dependency.''"
    by code_simp+
  have quiet: "filter flagged_import (walk [AST quiet_tree]) = []"
    by code_simp
  have "check_python_json_logger_import example_tree = Inr [import_message 1, import_from_message 2]"
    using check_python_json_logger_import_exact [of example_tree, THEN conjunct1]
    unfolding nodes by (simp add: issues)
  moreover have "check_python_json_logger_import quiet_tree = Inr []"
    using check_python_json_logger_import_exact [of quiet_tree, THEN conjunct1]
    unfolding quiet by simp
  ultimately show ?thesis
    by (simp add: messages)
qed

text \<open>
  Claim C8. Every string that \<^verbatim>\<open>run_all_checks\<close> returns was appended by one of the seven
  rules at a node of the tree that has a line number \<open>N\<close>, and it reads \<^verbatim>\<open>[Security]\<close>, then
  no tag or one of the two fixed tags \<^verbatim>\<open>[CVE-2025-3248]\<close> and \<^verbatim>\<open>[CVE-2025-27607]\<close>, then
  \<^verbatim>\<open> Line N:\<close> with \<open>N\<close> the line number of that node.
\<close>

theorem run_all_checks_format:
  assumes "run_all_checks tree = Inr r" and "s \<in> set r"
  shows "\<exists>n\<in>set (preorder (AST tree)). \<exists>N tag rest.
           lineno_of n = Some N \<and>
           (\<exists>xs. Inr xs \<in> set (actions_at n) \<and> s \<in> set xs) \<and>
           tag \<in> {[], ''[CVE-2025-3248]'', ''[CVE-2025-27607]''} \<and>
           s = ''[Security]'' @ tag @ '' Line '' @ str_int N @ '':'' @ rest"
proof -
  let ?at = "\<lambda>n tag. \<exists>N rest. lineno_of n = Some N \<and>
      s = ''[Security]'' @ tag @ '' Line '' @ str_int N @ '':'' @ rest"
  have found: ?thesis
    if "n \<in> set (preorder (AST tree))" "Inr xs \<in> set (actions_at n)" "s \<in> set xs" "?at n tag"
      "tag \<in> {[], ''[CVE-2025-3248]'', ''[CVE-2025-27607]''}" for n xs tag
    using that by blast
  obtain a b c d e f g where parts:
    "check_exec_eval_usage tree = Inr a"
    "check_python_json_logger_import tree = Inr b"
    "check_subprocess_usage tree = Inr c"
    "check_pickle_usage tree = Inr d"
    "check_yaml_load_usage tree = Inr e"
    "check_hardcoded_secrets tree = Inr f"
    "check_weak_hashing_usage tree = Inr g"
    "r = a @ b @ c @ d @ e @ f @ g"
    using assms(1) unfolding run_all_checks_parts by blast
  then consider "s \<in> set a" | "s \<in> set b" | "s \<in> set c" | "s \<in> set d" | "s \<in> set e"
    | "s \<in> set f" | "s \<in> set g"
    using assms(2) by auto
  then show ?thesis
  proof cases
    case 1
    then obtain n xs where n: "n \<in> set (preorder (AST tree))"
        "at_expr ExecEvalVisitor_visit_Call n = Inr xs" "s \<in> set xs"
      using visit_member parts(1) unfolding check_exec_eval_usage_def by blast
    have "Inr xs \<in> set (actions_at n)"
      using n(2) by (simp add: actions_at_def)
    then show ?thesis
      using found [OF n(1) _ n(3) exec_eval_shape [OF n(2) n(3)]] by simp
  next
    case 2
    then obtain n xs where n: "n \<in> set (preorder (AST tree))" "import_at n = Inr xs" "s \<in> set xs"
      using import_member parts(2) by blast
    have "Inr xs \<in> set (actions_at n)"
      using n(2) by (simp add: actions_at_def)
    then show ?thesis
      using found [OF n(1) _ n(3) import_shape [OF n(2) n(3)]] by simp
  next
    case 3
    then obtain n xs where n: "n \<in> set (preorder (AST tree))"
        "at_expr SubprocessVisitor_visit_Call n = Inr xs" "s \<in> set xs"
      using visit_member parts(3) unfolding check_subprocess_usage_def by blast
    have "Inr xs \<in> set (actions_at n)"
      using n(2) by (simp add: actions_at_def)
    then show ?thesis
      using found [OF n(1) _ n(3) subprocess_shape [OF n(2) n(3)]] by simp
  next
    case 4
    then obtain n xs where n: "n \<in> set (preorder (AST tree))"
        "at_expr PickleVisitor_visit_Call n = Inr xs" "s \<in> set xs"
      using visit_member parts(4) unfolding check_pickle_usage_def by blast
    have "Inr xs \<in> set (actions_at n)"
      using n(2) by (simp add: actions_at_def)
    then show ?thesis
      using found [OF n(1) _ n(3) pickle_shape [OF n(2) n(3)]] by simp
  next
    case 5
    then obtain n xs where n: "n \<in> set (preorder (AST tree))"
        "at_expr YAMLVisitor_visit_Call n = Inr xs" "s \<in> set xs"
      using visit_member parts(5) unfolding check_yaml_load_usage_def by blast
    have "Inr xs \<in> set (actions_at n)"
      using n(2) by (simp add: actions_at_def)
    then show ?thesis
      using found [OF n(1) _ n(3) yaml_shape [OF n(2) n(3)]] by simp
  next
    case 6
    then obtain n xs where n: "n \<in> set (preorder (AST tree))" "secrets_at n = Inr xs" "s \<in> set xs"
      using secrets_member parts(6) by blast
    have "Inr xs \<in> set (actions_at n)"
      using n(2) by (simp add: actions_at_def)
    then show ?thesis
      using found [OF n(1) _ n(3) secrets_shape [OF n(2) n(3)]] by simp
  next
    case 7
    then obtain n xs where n: "n \<in> set (preorder (AST tree))"
        "at_expr HashVisitor_visit_Attribute n = Inr xs" "s \<in> set xs"
      using visit_member parts(7) unfolding check_weak_hashing_usage_def by blast
    have "Inr xs \<in> set (actions_at n)"
      using n(2) by (simp add: actions_at_def)
    then show ?thesis
      using found [OF n(1) _ n(3) hashing_shape [OF n(2) n(3)]] by simp
  qed
qed

text \<open>
  On the example tree the last diagnostic is the one of \<^verbatim>\<open>hashlib.md5\<close> on line 8.
\<close>

theorem run_all_checks_format_witness:
  "run_all_checks example_tree =
     Inr [exec_eval_message 4 ''eval'', import_message 1, import_from_message 2,
          subprocess_message 5 ''run'', pickle_message 6 ''loads'', yaml_message 7,
          secrets_message 3 ''API_KEY'', hashing_message 8 ''md5''] \<and>
   (\<exists>n\<in>set (preorder (AST example_tree)). \<exists>N tag rest.
      lineno_of n = Some N \<and>
      (\<exists>xs. Inr xs \<in> set (actions_at n) \<and> hashing_message 8 ''md5'' \<in> set xs) \<and>
      tag \<in> {[], ''[CVE-2025-3248]'', ''[CVE-2025-27607]''} \<and>
      hashing_message 8 ''md5'' = ''[Security]'' @ tag @ '' Line '' @ str_int N @ '':'' @ rest)"
proof -
  have returned: "run_all_checks example_tree =
     Inr [exec_eval_message 4 ''eval'', import_message 1, import_from_message 2,
          subprocess_message 5 ''run'', pickle_message 6 ''loads'', yaml_message 7,
          secrets_message 3 ''API_KEY'', hashing_message 8 ''md5'']"
    by code_simp
  have member: "hashing_message 8 ''md5'' \<in>
     set [exec_eval_message 4 ''eval'', import_message 1, import_from_message 2,
          subprocess_message 5 ''run'', pickle_message 6 ''loads'', yaml_message 7,
          secrets_message 3 ''API_KEY'', hashing_message 8 ''md5'']"
    by simp
  show ?thesis
    using run_all_checks_format [OF returned member] returned by blast
qed

text \<open>
  Claim C9. The four attribute rules match on the bare module name only.
  \<^item> At a node: \<^verbatim>\<open>SubprocessVisitor\<close>, \<^verbatim>\<open>PickleVisitor\<close> and \<^verbatim>\<open>YAMLVisitor\<close> append (or raise) only
    at a call whose function is an attribute read from the bare name \<^verbatim>\<open>subprocess\<close>,
    \<^verbatim>\<open>pickle\<close>, \<^verbatim>\<open>yaml\<close>; \<^verbatim>\<open>HashVisitor\<close> only at an attribute read from the bare name
    \<^verbatim>\<open>hashlib\<close>. At a call or attribute on any other receiver (another name, such as an
    alias of the module, or an expression that is not a name) they do nothing.
  \<^item> On a tree: the result of each check is what its rule does at the nodes on the bare
    module name, in document order; every other node contributes nothing.
  \<^item> So a tree in which the dangerous members (\<^verbatim>\<open>subprocess.run\<close>, \<^verbatim>\<open>Popen\<close>, \<^verbatim>\<open>call\<close>,
    \<^verbatim>\<open>check_output\<close>; \<^verbatim>\<open>pickle.load\<close>, \<^verbatim>\<open>loads\<close>; \<^verbatim>\<open>yaml.load\<close>; \<^verbatim>\<open>hashlib.md5\<close>, \<^verbatim>\<open>sha1\<close>) are never used
    on the bare module name gets no diagnostic of that check, whatever else is in the tree.
\<close>

theorem attribute_rules_need_module_name:
  "(at_expr SubprocessVisitor_visit_Call n \<noteq> Inr [] \<longrightarrow>
      (\<exists>l l1 l2 a as ks. n = AST (Expr (Call l (Attribute l1 (Name l2 ''subprocess'') a) as ks)))) \<and>
   (at_expr PickleVisitor_visit_Call n \<noteq> Inr [] \<longrightarrow>
      (\<exists>l l1 l2 a as ks. n = AST (Expr (Call l (Attribute l1 (Name l2 ''pickle'') a) as ks)))) \<and>
   (at_expr YAMLVisitor_visit_Call n \<noteq> Inr [] \<longrightarrow>
      (\<exists>l l1 l2 a as ks. n = AST (Expr (Call l (Attribute l1 (Name l2 ''yaml'') a) as ks)))) \<and>
   (at_expr HashVisitor_visit_Attribute n \<noteq> Inr [] \<longrightarrow>
      (\<exists>l l1 a. n = AST (Expr (Attribute l (Name l1 ''hashlib'') a)))) \<and>
   check_subprocess_usage tree =
     collect (map (at_expr SubprocessVisitor_visit_Call)
       (filter (\<lambda>n. called_module n = Some ''subprocess'') (preorder (AST tree)))) \<and>
   check_pickle_usage tree =
     collect (map (at_expr PickleVisitor_visit_Call)
       (filter (\<lambda>n. called_module n = Some ''pickle'') (preorder (AST tree)))) \<and>
   check_yaml_load_usage tree =
     collect (map (at_expr YAMLVisitor_visit_Call)
       (filter (\<lambda>n. called_module n = Some ''yaml'') (preorder (AST tree)))) \<and>
   check_weak_hashing_usage tree =
     collect (map (at_expr HashVisitor_visit_Attribute)
       (filter (\<lambda>n. receiver n = Some ''hashlib'') (preorder (AST tree)))) \<and>
   ((\<forall>n\<in>set (preorder (AST tree)).
       \<forall>a\<in>{''run'', ''Popen'', ''call'', ''check_output''}. attribute_call n \<noteq> Some (''subprocess'', a)) \<longrightarrow>
      check_subprocess_usage tree = Inr []) \<and>
   ((\<forall>n\<in>set (preorder (AST tree)).
       \<forall>a\<in>{''load'', ''loads''}. attribute_call n \<noteq> Some (''pickle'', a)) \<longrightarrow>
      check_pickle_usage tree = Inr []) \<and>
   ((\<forall>n\<in>set (preorder (AST tree)). attribute_call n \<noteq> Some (''yaml'', ''load'')) \<longrightarrow>
      check_yaml_load_usage tree = Inr []) \<and>
   ((\<forall>n\<in>set (preorder (AST tree)).
       \<not> (receiver n = Some ''hashlib'' \<and> attr_of n \<in> {''md5'', ''sha1''})) \<longrightarrow>
      check_weak_hashing_usage tree = Inr [])"
proof -
  have sub_node: "at_expr SubprocessVisitor_visit_Call n \<noteq> Inr [] \<longrightarrow>
      (\<exists>l l1 l2 a as ks. n = AST (Expr (Call l (Attribute l1 (Name l2 ''subprocess'') a) as ks)))"
    using SubprocessVisitor_needs_name [of n] called_module_iff [of n "''subprocess''"] by blast
  have pickle_node: "at_expr PickleVisitor_visit_Call n \<noteq> Inr [] \<longrightarrow>
      (\<exists>l l1 l2 a as ks. n = AST (Expr (Call l (Attribute l1 (Name l2 ''pickle'') a) as ks)))"
    using PickleVisitor_needs_name [of n] called_module_iff [of n "''pickle''"] by blast
  have yaml_node: "at_expr YAMLVisitor_visit_Call n \<noteq> Inr [] \<longrightarrow>
      (\<exists>l l1 l2 a as ks. n = AST (Expr (Call l (Attribute l1 (Name l2 ''yaml'') a) as ks)))"
    using YAMLVisitor_needs_name [of n] called_module_iff [of n "''yaml''"] by blast
  have hash_node: "at_expr HashVisitor_visit_Attribute n \<noteq> Inr [] \<longrightarrow>
      (\<exists>l l1 a. n = AST (Expr (Attribute l (Name l1 ''hashlib'') a)))"
    using HashVisitor_needs_name [of n] receiver_iff [of n "''hashlib''"] by blast
  have sub_tree: "check_subprocess_usage tree =
     collect (map (at_expr SubprocessVisitor_visit_Call)
       (filter (\<lambda>n. called_module n = Some ''subprocess'') (preorder (AST tree))))"
    unfolding check_subprocess_usage_def
    by (rule visit_only_at) (rule SubprocessVisitor_needs_name)
  have pickle_tree: "check_pickle_usage tree =
     collect (map (at_expr PickleVisitor_visit_Call)
       (filter (\<lambda>n. called_module n = Some ''pickle'') (preorder (AST tree))))"
    unfolding check_pickle_usage_def
    by (rule visit_only_at) (rule PickleVisitor_needs_name)
  have yaml_tree: "check_yaml_load_usage tree =
     collect (map (at_expr YAMLVisitor_visit_Call)
       (filter (\<lambda>n. called_module n = Some ''yaml'') (preorder (AST tree))))"
    unfolding check_yaml_load_usage_def
    by (rule visit_only_at) (rule YAMLVisitor_needs_name)
  have hash_tree: "check_weak_hashing_usage tree =
     collect (map (at_expr HashVisitor_visit_Attribute)
       (filter (\<lambda>n. receiver n = Some ''hashlib'') (preorder (AST tree))))"
    unfolding check_weak_hashing_usage_def
    by (rule visit_only_at) (rule HashVisitor_needs_name)
  have sub_none: "(\<forall>n\<in>set (preorder (AST tree)).
       \<forall>a\<in>{''run'', ''Popen'', ''call'', ''check_output''}. attribute_call n \<noteq> Some (''subprocess'', a)) \<longrightarrow>
      check_subprocess_usage tree = Inr []"
  proof
    assume "\<forall>n\<in>set (preorder (AST tree)).
       \<forall>a\<in>{''run'', ''Popen'', ''call'', ''check_output''}. attribute_call n \<noteq> Some (''subprocess'', a)"
    then have "filter shell_true_call (preorder (AST tree)) = []"
      unfolding filter_empty_conv shell_true_call_def subprocess_call_def by auto
    then show "check_subprocess_usage tree = Inr []"
      by (simp add: check_subprocess_usage_preorder)
  qed
  have pickle_none: "(\<forall>n\<in>set (preorder (AST tree)).
       \<forall>a\<in>{''load'', ''loads''}. attribute_call n \<noteq> Some (''pickle'', a)) \<longrightarrow>
      check_pickle_usage tree = Inr []"
  proof
    assume "\<forall>n\<in>set (preorder (AST tree)).
       \<forall>a\<in>{''load'', ''loads''}. attribute_call n \<noteq> Some (''pickle'', a)"
    then have "filter pickle_call (preorder (AST tree)) = []"
      unfolding filter_empty_conv pickle_call_def by auto
    then show "check_pickle_usage tree = Inr []"
      by (simp add: check_pickle_usage_preorder)
  qed
  have yaml_none: "(\<forall>n\<in>set (preorder (AST tree)). attribute_call n \<noteq> Some (''yaml'', ''load'')) \<longrightarrow>
      check_yaml_load_usage tree = Inr []"
  proof
    assume "\<forall>n\<in>set (preorder (AST tree)). attribute_call n \<noteq> Some (''yaml'', ''load'')"
    then have "filter unsafe_yaml_load (preorder (AST tree)) = []"
      unfolding filter_empty_conv unsafe_yaml_load_def yaml_load_call_def by auto
    then show "check_yaml_load_usage tree = Inr []"
      by (simp add: check_yaml_load_usage_preorder)
  qed
  have hash_none: "(\<forall>n\<in>set (preorder (AST tree)).
       \<not> (receiver n = Some ''hashlib'' \<and> attr_of n \<in> {''md5'', ''sha1''})) \<longrightarrow>
      check_weak_hashing_usage tree = Inr []"
  proof
    assume "\<forall>n\<in>set (preorder (AST tree)).
       \<not> (receiver n = Some ''hashlib'' \<and> attr_of n \<in> {''md5'', ''sha1''})"
    then have "filter weak_hash_attribute (preorder (AST tree)) = []"
      unfolding filter_empty_conv weak_hash_attribute_def by auto
    then show "check_weak_hashing_usage tree = Inr []"
      by (simp add: check_weak_hashing_usage_preorder)
  qed
  show ?thesis
    using sub_node pickle_node yaml_node hash_node sub_tree pickle_tree yaml_tree hash_tree
      sub_none pickle_none yaml_none hash_none
    by (intro conjI)
qed

text \<open>
  The aliased tree binds the four modules to \<^verbatim>\<open>sp\<close>, \<^verbatim>\<open>pk\<close>, \<^verbatim>\<open>y\<close> and \<^verbatim>\<open>h\<close> and calls
  \<^verbatim>\<open>sp.run(cmd, shell=True)\<close>, \<^verbatim>\<open>pk.loads(data)\<close>, \<^verbatim>\<open>y.load(data)\<close> and \<^verbatim>\<open>h.md5(data)\<close>: no check
  reports anything. The rebound tree calls \<^verbatim>\<open>pk.loads(a)\<close> and, on the bare name,
  \<^verbatim>\<open>pickle.dumps(b)\<close>: \<^verbatim>\<open>check_pickle_usage\<close> reports nothing. The rules do nothing at the nodes
  \<^verbatim>\<open>pk.loads(a)\<close> and \<^verbatim>\<open>h.md5\<close>.
\<close>

theorem attribute_rules_need_module_name_witness:
  "check_subprocess_usage aliased_tree = Inr [] \<and>
   check_pickle_usage aliased_tree = Inr [] \<and>
   check_yaml_load_usage aliased_tree = Inr [] \<and>
   check_weak_hashing_usage aliased_tree = Inr [] \<and>
   check_pickle_usage rebound_tree = Inr [] \<and>
   at_expr PickleVisitor_visit_Call
     (AST (Expr (Call (Some 3) (Attribute (Some 3) (Name (Some 3) ''pk'') ''loads'')
                   [Name (Some 3) ''a''] []))) = Inr [] \<and>
   at_expr HashVisitor_visit_Attribute
     (AST (Expr (Attribute (Some 5) (Name (Some 5) ''h'') ''md5''))) = Inr []"
proof -
  have sub: "\<forall>n\<in>set (preorder (AST aliased_tree)).
       \<forall>a\<in>{''run'', ''Popen'', ''call'', ''check_output''}. attribute_call n \<noteq> Some (''subprocess'', a)"
    by code_simp
  have pickle: "\<forall>n\<in>set (preorder (AST aliased_tree)).
       \<forall>a\<in>{''load'', ''loads''}. attribute_call n \<noteq> Some (''pickle'', a)"
    by code_simp
  have yaml: "\<forall>n\<in>set (preorder (AST aliased_tree)). attribute_call n \<noteq> Some (''yaml'', ''load'')"
    by code_simp
  have hash: "\<forall>n\<in>set (preorder (AST aliased_tree)).
       \<not> (receiver n = Some ''hashlib'' \<and> attr_of n \<in> {''md5'', ''sha1''})"
    by code_simp
  have rebound: "\<forall>n\<in>set (preorder (AST rebound_tree)).
       \<forall>a\<in>{''load'', ''loads''}. attribute_call n \<noteq> Some (''pickle'', a)"
    by code_simp
  have pk: "at_expr PickleVisitor_visit_Call
     (AST (Expr (Call (Some 3) (Attribute (Some 3) (Name (Some 3) ''pk'') ''loads'')
                   [Name (Some 3) ''a''] []))) = Inr []"
    using attribute_rules_need_module_name
      [of "AST (Expr (Call (Some 3) (Attribute (Some 3) (Name (Some 3) ''pk'') ''loads'')
                   [Name (Some 3) ''a''] []))" aliased_tree]
    by auto
  have h: "at_expr HashVisitor_visit_Attribute
     (AST (Expr (Attribute (Some 5) (Name (Some 5) ''h'') ''md5''))) = Inr []"
    using attribute_rules_need_module_name
      [of "AST (Expr (Attribute (Some 5) (Name (Some 5) ''h'') ''md5''))" aliased_tree]
    by auto
  show ?thesis
    using attribute_rules_need_module_name [of _ aliased_tree]
      attribute_rules_need_module_name [of _ rebound_tree]
      sub pickle yaml hash rebound pk h
    by blast
qed

text \<open>
  Claim C10. At a call \<^verbatim>\<open>yaml.load(...)\<close> the rule looks at the keywords only: whatever the
  positional arguments are, it appends the diagnostic unless some keyword is named
  \<^verbatim>\<open>Loader\<close> and has an attribute access ending in \<^verbatim>\<open>SafeLoader\<close> as its value, on whatever
  object. So \<^verbatim>\<open>yaml.load(d, yaml.SafeLoader)\<close> is reported, \<^verbatim>\<open>yaml.load(d, Loader=obj.SafeLoader)\<close>
  is not, for any name \<^verbatim>\<open>obj\<close>, and a keyword of another name does not suppress the report.
\<close>

theorem yaml_load_positional_loader:
  "YAMLVisitor_visit_Call (Call (Some N) (Attribute l1 (Name l2 ''yaml'') ''load'') args kws) =
     (if \<exists>kw\<in>set kws. \<exists>l obj. kw = Keyword (Some ''Loader'') (Attribute l obj ''SafeLoader'')
      then Inr [] else Inr [yaml_message N]) \<and>
   check_yaml_load_usage
     (Node [Expr (Call (Some N) (Attribute l1 (Name l2 ''yaml'') ''load'')
              [Name l3 d, Attribute l4 (Name l5 ''yaml'') ''SafeLoader''] [])]) =
     Inr [yaml_message N] \<and>
   check_yaml_load_usage
     (Node [Expr (Call (Some N) (Attribute l1 (Name l2 ''yaml'') ''load'')
              [Name l3 d] [Keyword (Some ''Loader'') (Attribute l4 (Name l5 obj) ''SafeLoader'')])]) =
     Inr [] \<and>
   check_yaml_load_usage
     (Node [Expr (Call (Some N) (Attribute l1 (Name l2 ''yaml'') ''load'')
              [Name l3 d] [Keyword (Some ''loader'') (Attribute l4 (Name l5 ''yaml'') ''SafeLoader'')])]) =
     Inr [yaml_message N]"
proof -
  have "(\<exists>kw\<in>set kws. safe_loader_keyword kw) \<longleftrightarrow>
      (\<exists>kw\<in>set kws. \<exists>l obj. kw = Keyword (Some ''Loader'') (Attribute l obj ''SafeLoader''))"
    by (simp add: safe_loader_keyword_iff)
  then have node: "YAMLVisitor_visit_Call (Call (Some N) (Attribute l1 (Name l2 ''yaml'') ''load'') args kws) =
     (if \<exists>kw\<in>set kws. \<exists>l obj. kw = Keyword (Some ''Loader'') (Attribute l obj ''SafeLoader'')
      then Inr [] else Inr [yaml_message N])"
    by (simp add: yaml_keywords_loop_eq)
  have positional: "check_yaml_load_usage
     (Node [Expr (Call (Some N) (Attribute l1 (Name l2 ''yaml'') ''load'')
              [Name l3 d, Attribute l4 (Name l5 ''yaml'') ''SafeLoader''] [])]) =
     Inr [yaml_message N]"
    by (simp add: check_yaml_load_usage_def visit_expr.simps)
  have keyword: "check_yaml_load_usage
     (Node [Expr (Call (Some N) (Attribute l1 (Name l2 ''yaml'') ''load'')
              [Name l3 d] [Keyword (Some ''Loader'') (Attribute l4 (Name l5 obj) ''SafeLoader'')])]) =
     Inr []"
    by (simp add: check_yaml_load_usage_def visit_expr.simps)
  have other: "check_yaml_load_usage
     (Node [Expr (Call (Some N) (Attribute l1 (Name l2 ''yaml'') ''load'')
              [Name l3 d] [Keyword (Some ''loader'') (Attribute l4 (Name l5 ''yaml'') ''SafeLoader'')])]) =
     Inr [yaml_message N]"
    by (simp add: check_yaml_load_usage_def visit_expr.simps)
  show ?thesis
    using node positional keyword other by blast
qed

text \<open>
  \<^verbatim>\<open>yaml.load(data, yaml.SafeLoader)\<close> on line 7 is reported;
  \<^verbatim>\<open>yaml.load(data, Loader=json.SafeLoader)\<close> is not.
\<close>

theorem yaml_load_positional_loader_witness:
  "check_yaml_load_usage
     (Node [Expr (Call (Some 7) (Attribute (Some 7) (Name (Some 7) ''yaml'') ''load'')
              [Name (Some 7) ''data'', Attribute (Some 7) (Name (Some 7) ''yaml'') ''SafeLoader''] [])]) =
     Inr [''[Security] Line 7: Use of yaml.load() without SafeLoader. Unsafe YAML loading can lead to code execution. Recommendation: Use yaml.safe_load() or specify Loader=yaml.SafeLoader.''] \<and>
   check_yaml_load_usage
     (Node [Expr (Call (Some 7) (Attribute (Some 7) (Name (Some 7) ''yaml'') ''load'')
              [Name (Some 7) ''data'']
              [Keyword (Some ''Loader'') (Attribute (Some 7) (Name (Some 7) ''json'') ''SafeLoader'')])]) =
     Inr []"
proof -
  have message: "yaml_message 7 =
      ''[Security] Line 7: Use of yaml.load() without SafeLoader. Unsafe YAML loading can lead to code execution. Recommendation: Use yaml.safe_load() or specify Loader=yaml.SafeLoader.''"
    by code_simp
  show ?thesis
    using yaml_load_positional_loader
      [where N = 7 and ?l1.0 = "Some 7" and ?l2.0 = "Some 7" and ?l3.0 = "Some 7"
         and d = "''data''" and ?l4.0 = "Some 7" and ?l5.0 = "Some 7" and obj = "''json''"]
    by (simp add: message)
qed

end
